theory Spec2Isabelle
  imports Main "HOL-Library.Word"
begin

unbundle bit_operations_syntax

section \<open>Data model of \<open>RandomX_Hasher\<close> (src/pow_hash.cpp)\<close>

text \<open>
  A seed and a hash result are both values of the fixed-size type \<open>hash\<close> (32 bytes,
  compared bytewise; \<open>m_seed{}\<close> is the all-zero value). The message is a byte string;
  the \<open>size\<close> argument of \<open>calculate\<close> is its length.
\<close>

type_synonym hash = "256 word"
type_synonym bytes = "8 word list"
type_synonym u32 = "32 word"

text \<open>
  The engine's flag word is a set of flags; \<open>flags | F\<close> is \<open>insert F flags\<close>.
  Only the two flags that pow_hash.cpp names are distinguished, the platform flags
  returned by \<open>randomx_get_flags()\<close> are \<open>RANDOMX_FLAG_OTHER n\<close>.
\<close>

datatype randomx_flag = RANDOMX_FLAG_LARGE_PAGES | RANDOMX_FLAG_FULL_MEM | RANDOMX_FLAG_OTHER nat

type_synonym randomx_flags = "randomx_flag set"

definition RANDOMX_FLAG_DEFAULT :: randomx_flags where
  "RANDOMX_FLAG_DEFAULT = {}"

text \<open>
  A VM handle: the flags it was created with, the cache it is bound to (the index of the
  \<open>m_cache\<close> entry the pointer came from, \<open>None\<close> for \<open>nullptr\<close>) and whether it was given
  the dataset.
\<close>

record randomx_vm =
  vm_flags :: randomx_flags
  vm_cache :: "nat option"
  vm_dataset :: bool

text \<open>The engine memory a VM reads when it computes a hash.\<close>

datatype vm_memory = CacheMemory "hash option" | DatasetMemory "hash option list" | NoMemory

text \<open>
  Modelled from the spec: the opaque hash engine and the platform (section 6 of the
  specification; randomx.h and the C++ runtime are not part of the sources). Whether an
  allocation succeeds, the platform flags, the dataset item count, the hardware
  parallelism hint and the hash function itself are inputs of the model.
\<close>

record engine =
  get_flags :: randomx_flags
  alloc_dataset_ok :: "randomx_flags \<Rightarrow> bool"
  alloc_cache_ok :: "nat \<Rightarrow> randomx_flags \<Rightarrow> bool"
  create_vm_ok :: "randomx_flags \<Rightarrow> nat option \<Rightarrow> bool \<Rightarrow> bool"
  dataset_item_count :: u32
  hardware_concurrency :: u32
  engine_hash :: "vm_memory \<Rightarrow> bytes \<Rightarrow> hash"

text \<open>The calls made to the engine, in order (a ghost log kept beside the object).\<close>

datatype engine_call =
    AllocDataset randomx_flags
  | AllocCache nat randomx_flags
  | InitCache nat hash
  | CreateVM nat randomx_flags "nat option" bool
  | SetCache nat nat
  | InitDataset nat u32 u32
  | CalculateHash nat bytes

text \<open>
  The object's fields. A cache is the seed it was last initialised from (\<open>None\<close> while
  uninitialised); the dataset is \<open>None\<close> for \<open>nullptr\<close> and otherwise one entry per item,
  the content of the cache that item was last derived from. \<open>m_vm\<close> has three entries,
  the two slot VMs and the full-dataset VM. The two read/write locks and the three
  mutexes are not part of the sequential model.
\<close>

record RandomX_Hasher =
  m_cache :: "hash option list"
  m_dataset :: "hash option list option"
  m_vm :: "randomx_vm option list"
  m_seed :: "hash list"
  m_index :: u32
  m_setSeedCounter :: u32
  m_stopped :: bool
  engine_calls :: "engine_call list"

text \<open>
  Modelled from the spec: \<open>FULL_DATASET_VM\<close>, a constant of pow_hash.h (the third of the
  three VM handles: slot 0, slot 1, full dataset).
\<close>

definition FULL_DATASET_VM :: nat where
  "FULL_DATASET_VM = 2"

datatype fault = Panic | DatasetOverrun

section \<open>Engine primitives\<close>

definition log_call :: "engine_call \<Rightarrow> RandomX_Hasher \<Rightarrow> RandomX_Hasher" where
  "log_call c s = s\<lparr>engine_calls := engine_calls s @ [c]\<rparr>"

definition randomx_init_cache :: "nat \<Rightarrow> hash \<Rightarrow> RandomX_Hasher \<Rightarrow> RandomX_Hasher" where
  "randomx_init_cache i key s =
     log_call (InitCache i key) (s\<lparr>m_cache := (m_cache s)[i := Some key]\<rparr>)"

definition randomx_create_vm ::
  "engine \<Rightarrow> randomx_flags \<Rightarrow> nat option \<Rightarrow> bool \<Rightarrow> randomx_vm option" where
  "randomx_create_vm env flags cache dataset =
     (if create_vm_ok env flags cache dataset
      then Some \<lparr>vm_flags = flags, vm_cache = cache, vm_dataset = dataset\<rparr>
      else None)"

text \<open>
  \<open>randomx_init_dataset(dataset, cache, startItem, itemCount)\<close> derives the items
  \<open>startItem .. startItem + itemCount - 1\<close> from the cache. A range that leaves the
  dataset is a write outside the allocation: the fault \<open>DatasetOverrun\<close>.
\<close>

definition randomx_init_dataset ::
  "nat \<Rightarrow> u32 \<Rightarrow> u32 \<Rightarrow> RandomX_Hasher \<Rightarrow> fault + RandomX_Hasher" where
  "randomx_init_dataset c startItem itemCount s =
     (case m_dataset s of
        None \<Rightarrow> Inl DatasetOverrun
      | Some items \<Rightarrow>
          if unat startItem + unat itemCount \<le> length items
          then Inr (log_call (InitDataset c startItem itemCount)
                 (s\<lparr>m_dataset := Some (take (unat startItem) items
                        @ replicate (unat itemCount) (m_cache s ! c)
                        @ drop (unat startItem + unat itemCount) items)\<rparr>))
          else Inl DatasetOverrun)"

definition vm_reads :: "RandomX_Hasher \<Rightarrow> randomx_vm \<Rightarrow> vm_memory" where
  "vm_reads s vm =
     (case vm_cache vm of
        Some c \<Rightarrow> CacheMemory (m_cache s ! c)
      | None \<Rightarrow>
          (if vm_dataset vm
           then (case m_dataset s of Some items \<Rightarrow> DatasetMemory items | None \<Rightarrow> NoMemory)
           else NoMemory))"

text \<open>
  \<open>randomx_calculate_hash(m_vm[i].vm, data, size, &result)\<close> followed by \<open>return true\<close>:
  the hash is the engine's function of the memory the VM reads and of the message.
\<close>

definition randomx_calculate_hash ::
  "engine \<Rightarrow> nat \<Rightarrow> bytes \<Rightarrow> RandomX_Hasher \<Rightarrow> bool \<times> hash \<times> RandomX_Hasher" where
  "randomx_calculate_hash env i data s =
     (True,
      engine_hash env (case m_vm s ! i of Some vm \<Rightarrow> vm_reads s vm | None \<Rightarrow> NoMemory) data,
      log_call (CalculateHash i data) s)"

section \<open>The constructor (lines 31-81)\<close>

text \<open>
  Lines 41-53: the dataset is allocated unless \<open>m_lightMode\<close>, with large pages first
  and the default flags second; a dataset that cannot be allocated stays \<open>nullptr\<close>.
\<close>

definition ctor_alloc_dataset :: "engine \<Rightarrow> bool \<Rightarrow> RandomX_Hasher \<Rightarrow> RandomX_Hasher" where
  "ctor_alloc_dataset env lightMode s =
     (if lightMode then s
      else
        let fresh = Some (replicate (unat (dataset_item_count env)) None);
            s1 = log_call (AllocDataset {RANDOMX_FLAG_LARGE_PAGES}) s
        in if alloc_dataset_ok env {RANDOMX_FLAG_LARGE_PAGES}
           then s1\<lparr>m_dataset := fresh\<rparr>
           else
             let s2 = log_call (AllocDataset RANDOMX_FLAG_DEFAULT) s1
             in if alloc_dataset_ok env RANDOMX_FLAG_DEFAULT
                then s2\<lparr>m_dataset := fresh\<rparr>
                else s2)"

text \<open>Lines 57-68: the loop over the two caches, from index \<open>i\<close> on.\<close>

function ctor_alloc_caches :: "engine \<Rightarrow> nat \<Rightarrow> RandomX_Hasher \<Rightarrow> fault + RandomX_Hasher" where
  "ctor_alloc_caches env i s =
     (if i < length (m_cache s) then
        let flags = get_flags env;
            large = insert RANDOMX_FLAG_LARGE_PAGES flags;
            s1 = log_call (AllocCache i large) s
        in if alloc_cache_ok env i large
           then ctor_alloc_caches env (i + 1) s1
           else
             let s2 = log_call (AllocCache i flags) s1
             in if alloc_cache_ok env i flags
                then ctor_alloc_caches env (i + 1) s2
                else Inl Panic
      else Inr s)"
  by pat_completeness auto
termination
  by (relation "measure (\<lambda>(env, i, s). length (m_cache s) - i)") (auto simp: log_call_def)

definition zero_initialized :: RandomX_Hasher where
  "zero_initialized =
     \<lparr>m_cache = [None, None], m_dataset = None, m_vm = [None, None, None],
      m_seed = [0, 0], m_index = 0, m_setSeedCounter = 0, m_stopped = False,
      engine_calls = []\<rparr>"

definition RandomX_Hasher_ctor :: "engine \<Rightarrow> bool \<Rightarrow> fault + RandomX_Hasher" where
  "RandomX_Hasher_ctor env lightMode =
     ctor_alloc_caches env 0 (ctor_alloc_dataset env lightMode zero_initialized)"

section \<open>Seed rotation: \<open>set_seed\<close> (lines 183-286)\<close>

text \<open>
  Lines 214-229 of \<open>set_seed\<close> and, with \<open>old_index\<close> for \<open>m_index\<close>, lines 307-322 of
  \<open>set_old_seed\<close>: a slot's VM is rebound to the slot's cache, or created on first use
  (large pages first, the platform flags second, \<open>panic()\<close> when both fail).
\<close>

definition update_slot_vm :: "engine \<Rightarrow> nat \<Rightarrow> RandomX_Hasher \<Rightarrow> fault + RandomX_Hasher" where
  "update_slot_vm env i s =
     (case m_vm s ! i of
        Some vm \<Rightarrow>
          Inr (log_call (SetCache i i) (s\<lparr>m_vm := (m_vm s)[i := Some (vm\<lparr>vm_cache := Some i\<rparr>)]\<rparr>))
      | None \<Rightarrow>
          let flags = get_flags env;
              large = insert RANDOMX_FLAG_LARGE_PAGES flags;
              s1 = log_call (CreateVM i large (Some i) False) s
          in (case randomx_create_vm env large (Some i) False of
                Some vm \<Rightarrow> Inr (s1\<lparr>m_vm := (m_vm s1)[i := Some vm]\<rparr>)
              | None \<Rightarrow>
                  let s2 = log_call (CreateVM i flags (Some i) False) s1
                  in (case randomx_create_vm env flags (Some i) False of
                        Some vm \<Rightarrow> Inr (s2\<lparr>m_vm := (m_vm s2)[i := Some vm]\<rparr>)
                      | None \<Rightarrow> Inl Panic)))"

text \<open>Lines 236-241: half of the hardware threads, unless there is at most one.\<close>

definition num_threads :: "u32 \<Rightarrow> u32" where
  "num_threads hw = (if hw > 1 then hw div 2 else hw)"

text \<open>
  Lines 252-253 and 258: the range \<open>(a, b - a)\<close> of thread \<open>i\<close>, in \<open>uint32_t\<close>
  arithmetic (the products and the difference wrap around).
\<close>

definition thread_range :: "u32 \<Rightarrow> u32 \<Rightarrow> u32 \<Rightarrow> u32 \<times> u32" where
  "thread_range numItems numThreads i =
     (let a = (numItems * i) div numThreads;
          b = (numItems * (i + 1)) div numThreads
      in (a, b - a))"

text \<open>Lines 251-260: the loop \<open>for (uint32_t i = 0; i < numThreads; ++i)\<close>, from \<open>i\<close> on.\<close>

function thread_ranges :: "u32 \<Rightarrow> u32 \<Rightarrow> u32 \<Rightarrow> (u32 \<times> u32) list" where
  "thread_ranges numItems numThreads i =
     (if i < numThreads
      then thread_range numItems numThreads i # thread_ranges numItems numThreads (i + 1)
      else [])"
  by pat_completeness auto
termination
proof (relation "measure (\<lambda>(numItems, numThreads, i). unat numThreads - unat i)")
  show "wf (measure (\<lambda>(numItems :: u32, numThreads :: u32, i :: u32). unat numThreads - unat i))"
    by simp
next
  fix numItems numThreads i :: u32
  assume less: "i < numThreads"
  have "unat i < unat numThreads"
    using less by (simp add: word_less_nat_alt)
  moreover have "unat numThreads < 2 ^ 32"
    using unsigned_less [of numThreads, where 'a = nat] by simp
  ultimately have "unat (i + 1) = Suc (unat i)" and "unat i < unat numThreads"
    by (simp_all add: unat_word_ariths)
  then show "((numItems, numThreads, i + 1), (numItems, numThreads, i))
               \<in> measure (\<lambda>(numItems, numThreads, i). unat numThreads - unat i)"
    by simp
qed

declare thread_ranges.simps [simp del]

text \<open>Lines 247-268: the ranges handed to \<open>randomx_init_dataset\<close>, in thread order.\<close>

definition dataset_ranges :: "u32 \<Rightarrow> u32 \<Rightarrow> (u32 \<times> u32) list" where
  "dataset_ranges numItems hw =
     (let numThreads = num_threads hw
      in if numThreads > 1 then thread_ranges numItems numThreads 0
         else [(0, numItems)])"

fun init_dataset_ranges ::
  "nat \<Rightarrow> (u32 \<times> u32) list \<Rightarrow> RandomX_Hasher \<Rightarrow> fault + RandomX_Hasher" where
  "init_dataset_ranges c [] s = Inr s"
| "init_dataset_ranges c ((a, n) # rs) s =
     (case randomx_init_dataset c a n s of
        Inl e \<Rightarrow> Inl e
      | Inr s' \<Rightarrow> init_dataset_ranges c rs s')"

text \<open>
  Lines 270-282: the full-dataset VM is created when it does not exist yet. The second
  attempt passes \<open>flags\<close> alone, as the source does; no failure here is fatal.
\<close>

definition create_full_vm :: "engine \<Rightarrow> RandomX_Hasher \<Rightarrow> RandomX_Hasher" where
  "create_full_vm env s =
     (case m_vm s ! FULL_DATASET_VM of
        Some vm \<Rightarrow> s
      | None \<Rightarrow>
          let flags = get_flags env;
              full = insert RANDOMX_FLAG_FULL_MEM (insert RANDOMX_FLAG_LARGE_PAGES flags);
              s1 = log_call (CreateVM FULL_DATASET_VM full None True) s
          in (case randomx_create_vm env full None True of
                Some vm \<Rightarrow> s1\<lparr>m_vm := (m_vm s1)[FULL_DATASET_VM := Some vm]\<rparr>
              | None \<Rightarrow>
                  let s2 = log_call (CreateVM FULL_DATASET_VM flags None True) s1
                  in s2\<lparr>m_vm := (m_vm s2)[FULL_DATASET_VM := randomx_create_vm env flags None True]\<rparr>))"

text \<open>Lines 234-285: the dataset rebuild, when there is a dataset.\<close>

definition update_dataset :: "engine \<Rightarrow> RandomX_Hasher \<Rightarrow> fault + RandomX_Hasher" where
  "update_dataset env s =
     (case m_dataset s of
        None \<Rightarrow> Inr s
      | Some items \<Rightarrow>
          (case init_dataset_ranges (unat (m_index s))
                  (dataset_ranges (dataset_item_count env) (hardware_concurrency env)) s of
             Inl e \<Rightarrow> Inl e
           | Inr s1 \<Rightarrow> Inr (create_full_vm env s1)))"

text \<open>
  \<open>set_seed\<close>. The flag \<open>m_stopped\<close> is loaded twice (lines 185 and 202); \<open>late_stop\<close>
  says that another thread sets it between the two loads.
\<close>

definition set_seed :: "engine \<Rightarrow> bool \<Rightarrow> hash \<Rightarrow> RandomX_Hasher \<Rightarrow> fault + RandomX_Hasher" where
  "set_seed env late_stop seed s =
     (if m_stopped s then Inr s
      else
        let s1 = s\<lparr>m_setSeedCounter := m_setSeedCounter s + 1\<rparr>
        in if m_seed s1 ! unat (m_index s1) = seed then Inr s1
           else
             let s2 = s1\<lparr>m_stopped := m_stopped s1 \<or> late_stop\<rparr>
             in if m_stopped s2 then Inr s2
                else
                  let idx = m_index s2 XOR 1;
                      s3 = s2\<lparr>m_index := idx, m_seed := (m_seed s2)[unat idx := seed]\<rparr>;
                      s4 = randomx_init_cache (unat idx) (m_seed s3 ! unat idx) s3
                  in (case update_slot_vm env (unat idx) s4 of
                        Inl e \<Rightarrow> Inl e
                      | Inr s5 \<Rightarrow> update_dataset env s5))"

section \<open>Previous-seed recording: \<open>set_old_seed\<close> (lines 288-325)\<close>

text \<open>
  Lines 291-293: the loop polls \<open>m_setSeedCounter\<close> and sleeps. \<open>world k\<close> is what the
  other threads do to the object during the \<open>k\<close>-th sleep. The loop need not end, so
  the result is an option: \<open>None\<close> is a call that never returns.
\<close>

partial_function (option) wait_for_set_seed ::
  "(nat \<Rightarrow> RandomX_Hasher \<Rightarrow> RandomX_Hasher) \<Rightarrow> nat \<Rightarrow> RandomX_Hasher \<Rightarrow> RandomX_Hasher option" where
  "wait_for_set_seed world k s =
     (if m_setSeedCounter s = 0 then wait_for_set_seed world (k + 1) (world k s)
      else Some s)"

declare wait_for_set_seed.simps [code]

text \<open>Lines 297-323: the update of the slot that is not current.\<close>

definition set_old_seed_update :: "engine \<Rightarrow> hash \<Rightarrow> RandomX_Hasher \<Rightarrow> fault + RandomX_Hasher" where
  "set_old_seed_update env seed s =
     (let old_index = m_index s XOR 1;
          s1 = s\<lparr>m_seed := (m_seed s)[unat old_index := seed]\<rparr>;
          s2 = randomx_init_cache (unat old_index) (m_seed s1 ! unat old_index) s1
      in update_slot_vm env (unat old_index) s2)"

definition set_old_seed ::
  "engine \<Rightarrow> (nat \<Rightarrow> RandomX_Hasher \<Rightarrow> RandomX_Hasher) \<Rightarrow> hash \<Rightarrow> RandomX_Hasher
     \<Rightarrow> (fault + RandomX_Hasher) option" where
  "set_old_seed env world seed s =
     (case wait_for_set_seed world 0 s of
        None \<Rightarrow> None
      | Some s1 \<Rightarrow> Some (set_old_seed_update env seed s1))"

section \<open>Hash computation: \<open>calculate\<close> (lines 327-370)\<close>

text \<open>
  \<open>tryrdlock_ok\<close> is the outcome of the non-blocking \<open>uv_rwlock_tryrdlock\<close> on the
  dataset lock; \<open>result\<close> is the caller's out-parameter, returned as it was when no hash
  is written.
\<close>

definition calculate ::
  "engine \<Rightarrow> bool \<Rightarrow> bytes \<Rightarrow> hash \<Rightarrow> hash \<Rightarrow> RandomX_Hasher \<Rightarrow> bool \<times> hash \<times> RandomX_Hasher" where
  "calculate env tryrdlock_ok data seed result s =
     (if tryrdlock_ok \<and> m_stopped s then (False, result, s)
      else if tryrdlock_ok \<and> m_vm s ! FULL_DATASET_VM \<noteq> None \<and> seed = m_seed s ! unat (m_index s)
      then randomx_calculate_hash env FULL_DATASET_VM data s
      else if m_stopped s then (False, result, s)
      else if m_vm s ! unat (m_index s) \<noteq> None \<and> seed = m_seed s ! unat (m_index s)
      then randomx_calculate_hash env (unat (m_index s)) data s
      else
        let prev_index = m_index s XOR 1
        in if m_vm s ! unat prev_index \<noteq> None \<and> seed = m_seed s ! unat prev_index
           then randomx_calculate_hash env (unat prev_index) data s
           else (False, result, s))"

text \<open>The destructor's first statement, \<open>m_stopped.exchange(1)\<close> (line 85).\<close>

definition stop :: "RandomX_Hasher \<Rightarrow> RandomX_Hasher" where
  "stop s = s\<lparr>m_stopped := True\<rparr>"

section \<open>Well-formed objects\<close>

text \<open>
  The arrays have their declared sizes and the epoch index is 0 or 1. The constructor
  establishes this, and no operation changes it.
\<close>

definition well_formed :: "RandomX_Hasher \<Rightarrow> bool" where
  "well_formed s \<longleftrightarrow>
     length (m_cache s) = 2 \<and> length (m_seed s) = 2 \<and> length (m_vm s) = 3 \<and> m_index s < 2"

text \<open>The memory is derived from the seed: a cache initialised from it, or a dataset
  all of whose items were derived from such a cache.\<close>

definition keyed_by :: "hash \<Rightarrow> vm_memory \<Rightarrow> bool" where
  "keyed_by seed mem =
     (case mem of
        CacheMemory k \<Rightarrow> k = Some seed
      | DatasetMemory items \<Rightarrow> list_all (\<lambda>x. x = Some seed) items
      | NoMemory \<Rightarrow> False)"

text \<open>
  A consistent object: a slot VM that exists is bound to its slot's cache, and that cache
  was initialised from the slot's seed; a full-dataset VM that exists is bound to the
  dataset alone, every item of the dataset was derived from a cache initialised from the
  current slot's seed, and the current slot's VM exists too.
\<close>

definition slot_consistent :: "RandomX_Hasher \<Rightarrow> nat \<Rightarrow> bool" where
  "slot_consistent s i =
     (case m_vm s ! i of
        None \<Rightarrow> True
      | Some vm \<Rightarrow> vm_cache vm = Some i \<and> m_cache s ! i = Some (m_seed s ! i))"

definition dataset_consistent :: "RandomX_Hasher \<Rightarrow> bool" where
  "dataset_consistent s =
     (case m_vm s ! FULL_DATASET_VM of
        None \<Rightarrow> True
      | Some vm \<Rightarrow>
          vm_cache vm = None \<and> vm_dataset vm \<and>
          (case m_dataset s of
             None \<Rightarrow> False
           | Some items \<Rightarrow> list_all (\<lambda>x. x = Some (m_seed s ! unat (m_index s))) items) \<and>
          m_vm s ! unat (m_index s) \<noteq> None)"

definition consistent :: "RandomX_Hasher \<Rightarrow> bool" where
  "consistent s \<longleftrightarrow>
     well_formed s \<and> slot_consistent s 0 \<and> slot_consistent s 1 \<and> dataset_consistent s"

text \<open>
  A live slot matches the caller's seed: the full-dataset VM exists and the seed is the
  current slot's, or the current slot's VM exists and the seed is its slot's, or the
  previous slot's VM exists and the seed is its slot's.
\<close>

definition live_slot_matches :: "hash \<Rightarrow> RandomX_Hasher \<Rightarrow> bool" where
  "live_slot_matches seed s \<longleftrightarrow>
     (m_vm s ! FULL_DATASET_VM \<noteq> None \<and> seed = m_seed s ! unat (m_index s)) \<or>
     (m_vm s ! unat (m_index s) \<noteq> None \<and> seed = m_seed s ! unat (m_index s)) \<or>
     (m_vm s ! unat (m_index s XOR 1) \<noteq> None \<and> seed = m_seed s ! unat (m_index s XOR 1))"

text \<open>The VM that \<open>calculate\<close> uses when it succeeds: the first that matches, in the
  order full dataset (when the lock attempt succeeded), current slot, previous slot.\<close>

definition matching_vm :: "bool \<Rightarrow> hash \<Rightarrow> RandomX_Hasher \<Rightarrow> nat" where
  "matching_vm tryrdlock_ok seed s =
     (if tryrdlock_ok \<and> m_vm s ! FULL_DATASET_VM \<noteq> None \<and> seed = m_seed s ! unat (m_index s)
      then FULL_DATASET_VM
      else if m_vm s ! unat (m_index s) \<noteq> None \<and> seed = m_seed s ! unat (m_index s)
      then unat (m_index s)
      else unat (m_index s XOR 1))"

text \<open>The object as the polling loop of \<open>set_old_seed\<close> finds it at its \<open>n\<close>-th poll,
  when the first poll is the \<open>k\<close>-th of the world.\<close>

fun world_state ::
  "(nat \<Rightarrow> RandomX_Hasher \<Rightarrow> RandomX_Hasher) \<Rightarrow> nat \<Rightarrow> nat \<Rightarrow> RandomX_Hasher \<Rightarrow> RandomX_Hasher" where
  "world_state world k 0 s = s"
| "world_state world k (Suc n) s = world_state world (Suc k) n (world k s)"

text \<open>
  The calls of an allocation that tries large pages first and the default second: the
  second call is made only when the first fails.
\<close>

definition attempts ::
  "(randomx_flags \<Rightarrow> bool) \<Rightarrow> (randomx_flags \<Rightarrow> engine_call) \<Rightarrow> randomx_flags \<Rightarrow> randomx_flags
     \<Rightarrow> engine_call list" where
  "attempts ok call large dflt = (if ok large then [call large] else [call large, call dflt])"

text \<open>
  Full-dataset mode is disabled: there is no dataset and no full-dataset VM.
\<close>

definition full_mode_disabled :: "RandomX_Hasher \<Rightarrow> bool" where
  "full_mode_disabled s \<longleftrightarrow> m_dataset s = None \<and> m_vm s ! FULL_DATASET_VM = None"

text \<open>
  \<open>later s t\<close>: the object \<open>t\<close> is reached from \<open>s\<close> by calls of \<open>set_seed\<close>, of
  \<open>set_old_seed\<close> (once its wait is over) and of \<open>calculate\<close> that return, and by
  stopping.
\<close>

inductive later :: "RandomX_Hasher \<Rightarrow> RandomX_Hasher \<Rightarrow> bool" where
  later_refl: "later s s"
| later_set_seed: "later s t \<Longrightarrow> set_seed env late_stop seed t = Inr u \<Longrightarrow> later s u"
| later_set_old_seed: "later s t \<Longrightarrow> set_old_seed_update env seed t = Inr u \<Longrightarrow> later s u"
| later_calculate:
    "later s t \<Longrightarrow> calculate env tryrdlock_ok data seed result t = (ok, h, u) \<Longrightarrow> later s u"
| later_stop: "later s t \<Longrightarrow> later s (stop t)"

section \<open>A concrete engine and a concrete run\<close>

text \<open>
  An engine with a dataset of four items on a machine with four hardware threads, on
  which large pages are not available for the slot VMs. The run is the one of the
  specification's example: construct, rotate to A, rotate to B, record A as the previous
  seed, rotate to C (A, B, C are 10, 11, 12).
\<close>

definition demo_engine :: engine where
  "demo_engine =
     \<lparr>get_flags = {RANDOMX_FLAG_OTHER 0},
      alloc_dataset_ok = (\<lambda>f. True),
      alloc_cache_ok = (\<lambda>i f. True),
      create_vm_ok = (\<lambda>f c d. d \<or> RANDOMX_FLAG_LARGE_PAGES \<notin> f),
      dataset_item_count = 4,
      hardware_concurrency = 4,
      engine_hash = (\<lambda>m d. case m of
                        CacheMemory (Some k) \<Rightarrow> k + of_nat (length d)
                      | DatasetMemory (Some k # xs) \<Rightarrow> k + of_nat (length d)
                      | _ \<Rightarrow> 0)\<rparr>"

definition demo_s0 :: RandomX_Hasher where
  "demo_s0 = projr (RandomX_Hasher_ctor demo_engine False)"

definition demo_s1 :: RandomX_Hasher where
  "demo_s1 = projr (set_seed demo_engine False 10 demo_s0)"

definition demo_s2 :: RandomX_Hasher where
  "demo_s2 = projr (set_seed demo_engine False 11 demo_s1)"

definition demo_s3 :: RandomX_Hasher where
  "demo_s3 = projr (set_old_seed_update demo_engine 10 demo_s2)"

definition demo_s4 :: RandomX_Hasher where
  "demo_s4 = projr (set_seed demo_engine False 12 demo_s3)"

text \<open>
  The three rotations A, B, C with nothing in between.
\<close>

definition demo_r3 :: RandomX_Hasher where
  "demo_r3 = projr (set_seed demo_engine False 12 demo_s2)"

text \<open>
  A call of \<open>set_old_seed\<close> on the fresh object, while another thread rotates to B
  during the second sleep of the polling loop.
\<close>

definition demo_world :: "nat \<Rightarrow> RandomX_Hasher \<Rightarrow> RandomX_Hasher" where
  "demo_world k s = (if k = 1 then projr (set_seed demo_engine False 11 s) else s)"

definition demo_w1 :: RandomX_Hasher where
  "demo_w1 = projr (set_seed demo_engine False 11 demo_s0)"

definition demo_w2 :: RandomX_Hasher where
  "demo_w2 = projr (set_old_seed_update demo_engine 10 demo_w1)"

text \<open>
  An engine on which no full-dataset VM can be created, and a run that rotates to A on
  it and then to B on the first engine.
\<close>

definition flaky_engine :: engine where
  "flaky_engine = demo_engine\<lparr>create_vm_ok := (\<lambda>f c d. c \<noteq> None \<and> RANDOMX_FLAG_LARGE_PAGES \<notin> f)\<rparr>"

definition demo_f1 :: RandomX_Hasher where
  "demo_f1 = projr (set_seed flaky_engine False 10 demo_s0)"

definition demo_f2 :: RandomX_Hasher where
  "demo_f2 = projr (set_seed demo_engine False 11 demo_f1)"

text \<open>
  The run in light mode: construct, rotate to A.
\<close>

definition demo_l0 :: RandomX_Hasher where
  "demo_l0 = projr (RandomX_Hasher_ctor demo_engine True)"

definition demo_l1 :: RandomX_Hasher where
  "demo_l1 = projr (set_seed demo_engine False 10 demo_l0)"

text \<open>
  An engine on which no VM can be created.
\<close>

definition novm_engine :: engine where
  "novm_engine = demo_engine\<lparr>create_vm_ok := (\<lambda>f c d. False)\<rparr>"

text \<open>
  The object that \<open>set_old_seed\<close> returns for the seed 13 on the stopped object of the
  first run.
\<close>

definition demo_x :: RandomX_Hasher where
  "demo_x = projr (set_old_seed_update demo_engine 13 (stop demo_s4))"

text \<open>
  A machine with 256 hardware threads and the dataset of 34078719 items.
\<close>

definition epyc_engine :: engine where
  "epyc_engine = demo_engine\<lparr>dataset_item_count := 34078719, hardware_concurrency := 256\<rparr>"

definition epyc_s0 :: RandomX_Hasher where
  "epyc_s0 = projr (RandomX_Hasher_ctor epyc_engine False)"

section \<open>Fields left alone by the parts of an operation\<close>

lemma log_call_fields [simp]:
  "m_cache (log_call c s) = m_cache s"
  "m_dataset (log_call c s) = m_dataset s"
  "m_vm (log_call c s) = m_vm s"
  "m_seed (log_call c s) = m_seed s"
  "m_index (log_call c s) = m_index s"
  "m_setSeedCounter (log_call c s) = m_setSeedCounter s"
  "m_stopped (log_call c s) = m_stopped s"
  "engine_calls (log_call c s) = engine_calls s @ [c]"
  by (simp_all add: log_call_def)

lemma randomx_init_cache_fields [simp]:
  "m_cache (randomx_init_cache i k s) = (m_cache s)[i := Some k]"
  "m_dataset (randomx_init_cache i k s) = m_dataset s"
  "m_vm (randomx_init_cache i k s) = m_vm s"
  "m_seed (randomx_init_cache i k s) = m_seed s"
  "m_index (randomx_init_cache i k s) = m_index s"
  "m_setSeedCounter (randomx_init_cache i k s) = m_setSeedCounter s"
  "m_stopped (randomx_init_cache i k s) = m_stopped s"
  "engine_calls (randomx_init_cache i k s) = engine_calls s @ [InitCache i k]"
  by (simp_all add: randomx_init_cache_def)

lemma u32_less_2:
  fixes x :: u32
  assumes "x < 2"
  shows "x = 0 \<or> x = 1"
proof -
  have "unat x < 2" using assms by (simp add: word_less_nat_alt)
  then have "unat x = 0 \<or> unat x = 1" by linarith
  then show ?thesis by (auto simp: word_unat_eq_iff)
qed

lemma index_cases:
  assumes "well_formed s"
  shows "(m_index s = 0 \<and> m_index s XOR 1 = 1) \<or> (m_index s = 1 \<and> m_index s XOR 1 = 0)"
  using u32_less_2 [of "m_index s"] assms by (auto simp: well_formed_def)

lemma update_slot_vm_Inr:
  assumes "update_slot_vm env i s = Inr s'"
  shows "m_cache s' = m_cache s" "m_dataset s' = m_dataset s" "m_seed s' = m_seed s"
    "m_index s' = m_index s" "m_setSeedCounter s' = m_setSeedCounter s"
    "m_stopped s' = m_stopped s"
    "\<exists>vm. m_vm s' = (m_vm s)[i := Some vm] \<and> vm_cache vm = Some i"
  using assms
  by (auto simp: update_slot_vm_def randomx_create_vm_def Let_def split: option.splits if_splits)

lemma update_slot_vm_Inl:
  "update_slot_vm env i s = Inl f \<longleftrightarrow>
     f = Panic \<and> m_vm s ! i = None \<and>
     \<not> create_vm_ok env (insert RANDOMX_FLAG_LARGE_PAGES (get_flags env)) (Some i) False \<and>
     \<not> create_vm_ok env (get_flags env) (Some i) False"
  by (auto simp: update_slot_vm_def randomx_create_vm_def Let_def split: option.splits if_splits)

lemma update_slot_vm_log:
  assumes "update_slot_vm env i s = Inr s'"
  shows "engine_calls s' = engine_calls s @
    (case m_vm s ! i of
       Some vm \<Rightarrow> [SetCache i i]
     | None \<Rightarrow> attempts (\<lambda>f. create_vm_ok env f (Some i) False) (\<lambda>f. CreateVM i f (Some i) False)
         (insert RANDOMX_FLAG_LARGE_PAGES (get_flags env)) (get_flags env))"
  using assms
  by (auto simp: update_slot_vm_def randomx_create_vm_def Let_def attempts_def
      split: option.splits if_splits)

lemma randomx_init_dataset_Inr:
  assumes "randomx_init_dataset c a n s = Inr s'"
  shows "m_cache s' = m_cache s" "m_vm s' = m_vm s" "m_seed s' = m_seed s"
    "m_index s' = m_index s" "m_setSeedCounter s' = m_setSeedCounter s"
    "m_stopped s' = m_stopped s" "m_dataset s' \<noteq> None"
  using assms
  by (auto simp: randomx_init_dataset_def split: option.splits if_splits)

lemma randomx_init_dataset_length:
  assumes "m_dataset s = Some items" and "randomx_init_dataset c a n s = Inr t"
  shows "\<exists>items'. m_dataset t = Some items' \<and> length items' = length items"
  using assms by (auto simp: randomx_init_dataset_def split: if_splits)

lemma randomx_init_dataset_Inl:
  assumes "m_dataset s = Some items"
  shows "randomx_init_dataset c a n s = Inl e \<longleftrightarrow>
    e = DatasetOverrun \<and> length items < unat a + unat n"
  using assms by (auto simp: randomx_init_dataset_def)

lemma init_dataset_ranges_Inr:
  assumes "init_dataset_ranges c rs s = Inr s'"
  shows "m_cache s' = m_cache s \<and> m_vm s' = m_vm s \<and> m_seed s' = m_seed s \<and>
    m_index s' = m_index s \<and> m_setSeedCounter s' = m_setSeedCounter s \<and>
    m_stopped s' = m_stopped s \<and> (m_dataset s \<noteq> None \<longrightarrow> m_dataset s' \<noteq> None)"
  using assms
proof (induction rs arbitrary: s)
  case Nil
  then show ?case by simp
next
  case (Cons r rs)
  obtain a n where r: "r = (a, n)" by (cases r)
  from Cons.prems r obtain t where
    t: "randomx_init_dataset c a n s = Inr t" and rest: "init_dataset_ranges c rs t = Inr s'"
    by (auto split: sum.splits)
  from Cons.IH [OF rest] randomx_init_dataset_Inr [OF t] show ?case by simp
qed

lemma init_dataset_ranges_Inl:
  assumes "init_dataset_ranges c rs s = Inl e"
  shows "e = DatasetOverrun"
  using assms
proof (induction rs arbitrary: s)
  case Nil
  then show ?case by simp
next
  case (Cons r rs)
  obtain a n where r: "r = (a, n)" by (cases r)
  show ?case
  proof (cases "randomx_init_dataset c a n s")
    case (Inl e')
    with Cons.prems r show ?thesis
      by (auto simp: randomx_init_dataset_def split: option.splits if_splits)
  next
    case (Inr t)
    with Cons.prems r have "init_dataset_ranges c rs t = Inl e" by simp
    then show ?thesis by (rule Cons.IH)
  qed
qed

lemma init_dataset_ranges_overrun:
  assumes "m_dataset s = Some items" and "(a, n) \<in> set rs"
    and "length items < unat a + unat n"
  shows "init_dataset_ranges c rs s = Inl DatasetOverrun"
  using assms
proof (induction rs arbitrary: s items)
  case Nil
  then show ?case by simp
next
  case (Cons r rs)
  obtain a' n' where r: "r = (a', n')" by (cases r)
  show ?case
  proof (cases "randomx_init_dataset c a' n' s")
    case (Inl e)
    with randomx_init_dataset_Inl [OF Cons.prems(1), of c a' n' e] r show ?thesis by simp
  next
    case (Inr t)
    from randomx_init_dataset_length [OF Cons.prems(1) Inr] obtain items' where
      t: "m_dataset t = Some items'" "length items' = length items"
      by blast
    from Inr randomx_init_dataset_Inl [OF Cons.prems(1), of c a' n' DatasetOverrun]
    have "\<not> length items < unat a' + unat n'" by auto
    with Cons.prems r have "(a, n) \<in> set rs" by auto
    from Cons.IH [OF t(1) this] Cons.prems(3) t(2) Inr r show ?thesis by simp
  qed
qed

lemma init_dataset_ranges_in_bounds:
  assumes "m_dataset s = Some items"
    and "\<And>a n. (a, n) \<in> set rs \<Longrightarrow> unat a + unat n \<le> length items"
  shows "\<exists>s'. init_dataset_ranges c rs s = Inr s'"
  using assms
proof (induction rs arbitrary: s items)
  case Nil
  then show ?case by simp
next
  case (Cons r rs)
  obtain a n where r: "r = (a, n)" by (cases r)
  have "unat a + unat n \<le> length items"
    using Cons.prems(2) [of a n] r by simp
  with Cons.prems(1) obtain t where t: "randomx_init_dataset c a n s = Inr t"
    by (auto simp: randomx_init_dataset_def)
  from randomx_init_dataset_length [OF Cons.prems(1) t] obtain items' where
    t': "m_dataset t = Some items'" "length items' = length items"
    by blast
  have "\<exists>s'. init_dataset_ranges c rs t = Inr s'"
  proof (rule Cons.IH [OF t'(1)])
    fix a' n' assume "(a', n') \<in> set rs"
    then show "unat a' + unat n' \<le> length items'"
      using Cons.prems(2) [of a' n'] t'(2) by simp
  qed
  with t r show ?case by simp
qed

lemma create_full_vm_fields:
  "m_cache (create_full_vm env s) = m_cache s"
  "m_dataset (create_full_vm env s) = m_dataset s"
  "m_seed (create_full_vm env s) = m_seed s"
  "m_index (create_full_vm env s) = m_index s"
  "m_setSeedCounter (create_full_vm env s) = m_setSeedCounter s"
  "m_stopped (create_full_vm env s) = m_stopped s"
  "length (m_vm (create_full_vm env s)) = length (m_vm s)"
  "j \<noteq> FULL_DATASET_VM \<Longrightarrow> m_vm (create_full_vm env s) ! j = m_vm s ! j"
  by (auto simp: create_full_vm_def Let_def split: option.splits)

lemma create_full_vm_log:
  "engine_calls (create_full_vm env s) = engine_calls s @
    (case m_vm s ! FULL_DATASET_VM of
       Some vm \<Rightarrow> []
     | None \<Rightarrow> attempts (\<lambda>f. create_vm_ok env f None True) (\<lambda>f. CreateVM FULL_DATASET_VM f None True)
         (insert RANDOMX_FLAG_FULL_MEM (insert RANDOMX_FLAG_LARGE_PAGES (get_flags env)))
         (get_flags env))"
  by (auto simp: create_full_vm_def randomx_create_vm_def Let_def attempts_def
      split: option.splits if_splits)

lemma update_dataset_Inr:
  assumes "update_dataset env s = Inr s'"
  shows "m_cache s' = m_cache s \<and> m_seed s' = m_seed s \<and>
    m_index s' = m_index s \<and> m_setSeedCounter s' = m_setSeedCounter s \<and>
    m_stopped s' = m_stopped s \<and> length (m_vm s') = length (m_vm s) \<and>
    (\<forall>j. j \<noteq> FULL_DATASET_VM \<longrightarrow> m_vm s' ! j = m_vm s ! j) \<and>
    (m_dataset s = None \<longrightarrow> s' = s)"
proof (cases "m_dataset s")
  case None
  with assms have "s' = s" by (simp add: update_dataset_def)
  then show ?thesis by simp
next
  case (Some items)
  with assms obtain t where
    t: "init_dataset_ranges (unat (m_index s))
          (dataset_ranges (dataset_item_count env) (hardware_concurrency env)) s = Inr t"
    and s': "s' = create_full_vm env t"
    by (auto simp: update_dataset_def split: sum.splits)
  from init_dataset_ranges_Inr [OF t] s' Some
  show ?thesis by (simp add: create_full_vm_fields)
qed

lemma update_dataset_Inl:
  assumes "update_dataset env s = Inl e"
  shows "e = DatasetOverrun"
  using assms init_dataset_ranges_Inl
  by (auto simp: update_dataset_def split: option.splits sum.splits)

lemma update_dataset_Inl_iff:
  "update_dataset env s = Inl f \<longleftrightarrow>
     f = DatasetOverrun \<and>
     (\<exists>items a n. m_dataset s = Some items \<and>
        (a, n) \<in> set (dataset_ranges (dataset_item_count env) (hardware_concurrency env)) \<and>
        length items < unat a + unat n)"
proof (cases "m_dataset s")
  case None
  then show ?thesis by (simp add: update_dataset_def)
next
  case (Some items)
  let ?rs = "dataset_ranges (dataset_item_count env) (hardware_concurrency env)"
  show ?thesis
  proof (cases "\<exists>a n. (a, n) \<in> set ?rs \<and> length items < unat a + unat n")
    case True
    then obtain a n where "(a, n) \<in> set ?rs" "length items < unat a + unat n"
      by blast
    from init_dataset_ranges_overrun [OF Some this] True Some show ?thesis
      by (auto simp: update_dataset_def)
  next
    case False
    have "\<exists>s'. init_dataset_ranges (unat (m_index s)) ?rs s = Inr s'"
    proof (rule init_dataset_ranges_in_bounds [OF Some])
      fix a n assume "(a, n) \<in> set ?rs"
      with False show "unat a + unat n \<le> length items"
        by (meson not_le)
    qed
    with False Some show ?thesis
      by (auto simp: update_dataset_def)
  qed
qed

section \<open>The constructor\<close>

lemma ctor_alloc_caches_two:
  assumes "length (m_cache s) = 2"
  shows "ctor_alloc_caches env 0 s =
    (let flags = get_flags env; large = insert RANDOMX_FLAG_LARGE_PAGES flags in
     if \<not> alloc_cache_ok env 0 large \<and> \<not> alloc_cache_ok env 0 flags then Inl Panic
     else if \<not> alloc_cache_ok env 1 large \<and> \<not> alloc_cache_ok env 1 flags then Inl Panic
     else Inr (s\<lparr>engine_calls := engine_calls s
            @ attempts (alloc_cache_ok env 0) (AllocCache 0) large flags
            @ attempts (alloc_cache_ok env 1) (AllocCache 1) large flags\<rparr>))"
  using assms
  by (subst ctor_alloc_caches.simps, subst ctor_alloc_caches.simps, subst ctor_alloc_caches.simps,
      subst ctor_alloc_caches.simps, subst ctor_alloc_caches.simps)
     (simp add: Let_def log_call_def attempts_def)

lemma ctor_alloc_dataset_fields:
  "m_cache (ctor_alloc_dataset env lm s) = m_cache s"
  "m_vm (ctor_alloc_dataset env lm s) = m_vm s"
  "m_seed (ctor_alloc_dataset env lm s) = m_seed s"
  "m_index (ctor_alloc_dataset env lm s) = m_index s"
  "m_setSeedCounter (ctor_alloc_dataset env lm s) = m_setSeedCounter s"
  "m_stopped (ctor_alloc_dataset env lm s) = m_stopped s"
  "engine_calls (ctor_alloc_dataset env lm s) = engine_calls s @
     (if lm then []
      else attempts (alloc_dataset_ok env) AllocDataset {RANDOMX_FLAG_LARGE_PAGES} RANDOMX_FLAG_DEFAULT)"
  "m_dataset s = None \<Longrightarrow> m_dataset (ctor_alloc_dataset env lm s) = None \<longleftrightarrow>
     lm \<or> (\<not> alloc_dataset_ok env {RANDOMX_FLAG_LARGE_PAGES} \<and> \<not> alloc_dataset_ok env RANDOMX_FLAG_DEFAULT)"
  by (auto simp: ctor_alloc_dataset_def Let_def attempts_def)

lemma ctor_Inl:
  "RandomX_Hasher_ctor env lm = Inl f \<longleftrightarrow>
     f = Panic \<and>
     ((\<not> alloc_cache_ok env 0 (insert RANDOMX_FLAG_LARGE_PAGES (get_flags env)) \<and>
       \<not> alloc_cache_ok env 0 (get_flags env)) \<or>
      (\<not> alloc_cache_ok env 1 (insert RANDOMX_FLAG_LARGE_PAGES (get_flags env)) \<and>
       \<not> alloc_cache_ok env 1 (get_flags env)))"
proof -
  have "length (m_cache (ctor_alloc_dataset env lm zero_initialized)) = 2"
    by (simp add: ctor_alloc_dataset_fields zero_initialized_def)
  from ctor_alloc_caches_two [OF this] show ?thesis
    by (auto simp: RandomX_Hasher_ctor_def Let_def)
qed

lemma ctor_Inr:
  assumes "RandomX_Hasher_ctor env lm = Inr s"
  shows "engine_calls s =
      (if lm then []
       else attempts (alloc_dataset_ok env) AllocDataset {RANDOMX_FLAG_LARGE_PAGES} RANDOMX_FLAG_DEFAULT)
      @ attempts (alloc_cache_ok env 0) (AllocCache 0)
          (insert RANDOMX_FLAG_LARGE_PAGES (get_flags env)) (get_flags env)
      @ attempts (alloc_cache_ok env 1) (AllocCache 1)
          (insert RANDOMX_FLAG_LARGE_PAGES (get_flags env)) (get_flags env)"
    and "m_dataset s = None \<longleftrightarrow>
      lm \<or> (\<not> alloc_dataset_ok env {RANDOMX_FLAG_LARGE_PAGES} \<and> \<not> alloc_dataset_ok env RANDOMX_FLAG_DEFAULT)"
    and "m_vm s = [None, None, None]" and "well_formed s" and "\<not> m_stopped s"
    and "m_setSeedCounter s = 0"
proof -
  have len: "length (m_cache (ctor_alloc_dataset env lm zero_initialized)) = 2"
    by (simp add: ctor_alloc_dataset_fields zero_initialized_def)
  from assms ctor_alloc_caches_two [OF len]
  have s: "s = (ctor_alloc_dataset env lm zero_initialized)
     \<lparr>engine_calls := engine_calls (ctor_alloc_dataset env lm zero_initialized)
            @ attempts (alloc_cache_ok env 0) (AllocCache 0)
                (insert RANDOMX_FLAG_LARGE_PAGES (get_flags env)) (get_flags env)
            @ attempts (alloc_cache_ok env 1) (AllocCache 1)
                (insert RANDOMX_FLAG_LARGE_PAGES (get_flags env)) (get_flags env)\<rparr>"
    by (auto simp: RandomX_Hasher_ctor_def Let_def split: if_splits)
  have z: "m_dataset zero_initialized = None" "engine_calls zero_initialized = []"
    "m_vm zero_initialized = [None, None, None]" "m_cache zero_initialized = [None, None]"
    "m_seed zero_initialized = [0, 0]" "m_index zero_initialized = 0"
    "\<not> m_stopped zero_initialized" "m_setSeedCounter zero_initialized = 0"
    by (simp_all add: zero_initialized_def)
  show "engine_calls s =
      (if lm then []
       else attempts (alloc_dataset_ok env) AllocDataset {RANDOMX_FLAG_LARGE_PAGES} RANDOMX_FLAG_DEFAULT)
      @ attempts (alloc_cache_ok env 0) (AllocCache 0)
          (insert RANDOMX_FLAG_LARGE_PAGES (get_flags env)) (get_flags env)
      @ attempts (alloc_cache_ok env 1) (AllocCache 1)
          (insert RANDOMX_FLAG_LARGE_PAGES (get_flags env)) (get_flags env)"
    by (subst s) (simp add: ctor_alloc_dataset_fields z)
  show "m_dataset s = None \<longleftrightarrow>
      lm \<or> (\<not> alloc_dataset_ok env {RANDOMX_FLAG_LARGE_PAGES} \<and> \<not> alloc_dataset_ok env RANDOMX_FLAG_DEFAULT)"
    by (subst s) (simp add: ctor_alloc_dataset_fields z)
  show "m_vm s = [None, None, None]"
    by (subst s) (simp add: ctor_alloc_dataset_fields z)
  show "well_formed s"
    by (subst s) (simp add: well_formed_def ctor_alloc_dataset_fields z)
  show "\<not> m_stopped s"
    by (subst s) (simp add: ctor_alloc_dataset_fields z)
  show "m_setSeedCounter s = 0"
    by (subst s) (simp add: ctor_alloc_dataset_fields z)
qed

section \<open>Rotation\<close>

lemma set_seed_rotates:
  assumes wf: "well_formed s" and run: "\<not> m_stopped s"
    and new: "m_seed s ! unat (m_index s) \<noteq> seed"
    and ok: "set_seed env False seed s = Inr s'"
  shows "well_formed s' \<and> \<not> m_stopped s' \<and>
    m_index s' = m_index s XOR 1 \<and>
    m_seed s' = (m_seed s)[unat (m_index s XOR 1) := seed] \<and>
    m_cache s' = (m_cache s)[unat (m_index s XOR 1) := Some seed] \<and>
    m_setSeedCounter s' = m_setSeedCounter s + 1 \<and>
    m_vm s' ! unat (m_index s) = m_vm s ! unat (m_index s) \<and>
    (\<exists>vm. m_vm s' ! unat (m_index s XOR 1) = Some vm \<and>
          vm_cache vm = Some (unat (m_index s XOR 1)))"
proof -
  define i where "i = unat (m_index s XOR 1)"
  have i: "i < 2" "i \<noteq> FULL_DATASET_VM" "i \<noteq> unat (m_index s)"
    "unat (m_index s) \<noteq> FULL_DATASET_VM" "m_index s XOR 1 < 2"
    using index_cases [OF wf] by (auto simp: i_def FULL_DATASET_VM_def)
  have len: "length (m_seed s) = 2" "length (m_vm s) = 3" "length (m_cache s) = 2"
    using wf by (simp_all add: well_formed_def)
  from run new ok obtain s5 where
    s5: "update_slot_vm env i (randomx_init_cache i ((m_seed s)[i := seed] ! i)
      (s\<lparr>m_setSeedCounter := m_setSeedCounter s + 1, m_stopped := False,
         m_index := m_index s XOR 1, m_seed := (m_seed s)[i := seed]\<rparr>)) = Inr s5"
    and s': "update_dataset env s5 = Inr s'"
    by (auto simp: set_seed_def Let_def i_def split: sum.splits)
  from update_slot_vm_Inr [OF s5] obtain vm where
    f5: "m_cache s5 = (m_cache s)[i := Some seed]" "m_seed s5 = (m_seed s)[i := seed]"
      "m_index s5 = m_index s XOR 1" "m_setSeedCounter s5 = m_setSeedCounter s + 1"
      "\<not> m_stopped s5" "m_vm s5 = (m_vm s)[i := Some vm]" "vm_cache vm = Some i"
    using i len by auto
  from update_dataset_Inr [OF s'] f5 i len show ?thesis
    by (simp add: well_formed_def i_def [symmetric])
qed

lemma set_seed_makes_current:
  assumes wf: "well_formed s" and run: "\<not> m_stopped s"
    and ok: "set_seed env False seed s = Inr s'"
  shows "well_formed s' \<and> \<not> m_stopped s' \<and> m_seed s' ! unat (m_index s') = seed"
proof (cases "m_seed s ! unat (m_index s) = seed")
  case True
  with run ok show ?thesis using wf by (auto simp: set_seed_def well_formed_def)
next
  case False
  from set_seed_rotates [OF wf run False ok] index_cases [OF wf] wf show ?thesis
    by (auto simp: well_formed_def)
qed

lemma set_seed_Inr_cases:
  assumes "set_seed env late_stop seed s = Inr s'"
  shows "s' = s \<or> s' = s\<lparr>m_setSeedCounter := m_setSeedCounter s + 1\<rparr> \<or>
    s' = s\<lparr>m_setSeedCounter := m_setSeedCounter s + 1, m_stopped := True\<rparr> \<or>
    (\<not> m_stopped s \<and> m_seed s ! unat (m_index s) \<noteq> seed \<and> \<not> late_stop \<and>
     set_seed env False seed s = Inr s')"
  using assms by (cases late_stop) (auto simp: set_seed_def Let_def split: if_splits)

lemma set_seed_Panic_iff:
  assumes wf: "well_formed s"
  shows "set_seed env late_stop seed s = Inl Panic \<longleftrightarrow>
    \<not> m_stopped s \<and> m_seed s ! unat (m_index s) \<noteq> seed \<and> \<not> late_stop \<and>
    m_vm s ! unat (m_index s XOR 1) = None \<and>
    \<not> create_vm_ok env (insert RANDOMX_FLAG_LARGE_PAGES (get_flags env))
        (Some (unat (m_index s XOR 1))) False \<and>
    \<not> create_vm_ok env (get_flags env) (Some (unat (m_index s XOR 1))) False"
proof -
  define i where "i = unat (m_index s XOR 1)"
  define s4 where "s4 = randomx_init_cache i ((m_seed s)[i := seed] ! i)
      (s\<lparr>m_setSeedCounter := m_setSeedCounter s + 1, m_stopped := False,
         m_index := m_index s XOR 1, m_seed := (m_seed s)[i := seed]\<rparr>)"
  have vm4: "m_vm s4 = m_vm s"
    by (simp add: s4_def)
  have run: "set_seed env late_stop seed s =
      (case update_slot_vm env i s4 of Inl e \<Rightarrow> Inl e | Inr s5 \<Rightarrow> update_dataset env s5)"
    if "\<not> m_stopped s" "m_seed s ! unat (m_index s) \<noteq> seed" "\<not> late_stop"
    using that by (simp add: set_seed_def Let_def i_def s4_def)
  have other: "\<exists>t. set_seed env late_stop seed s = Inr t"
    if "m_stopped s \<or> m_seed s ! unat (m_index s) = seed \<or> late_stop"
    using that by (auto simp: set_seed_def Let_def)
  show ?thesis
  proof (cases "m_stopped s \<or> m_seed s ! unat (m_index s) = seed \<or> late_stop")
    case True
    from other [OF True] True show ?thesis by auto
  next
    case False
    then have eq: "set_seed env late_stop seed s =
      (case update_slot_vm env i s4 of Inl e \<Rightarrow> Inl e | Inr s5 \<Rightarrow> update_dataset env s5)"
      using run by simp
    show ?thesis
    proof (cases "update_slot_vm env i s4")
      case (Inl e)
      with eq update_slot_vm_Inl [of env i s4 e] False vm4 show ?thesis
        by (auto simp: i_def)
    next
      case (Inr s5)
      with update_slot_vm_Inl [of env i s4 Panic] vm4
      have "\<not> (m_vm s ! i = None \<and>
          \<not> create_vm_ok env (insert RANDOMX_FLAG_LARGE_PAGES (get_flags env)) (Some i) False \<and>
          \<not> create_vm_ok env (get_flags env) (Some i) False)"
        by auto
      moreover have "set_seed env late_stop seed s \<noteq> Inl Panic"
        using eq Inr update_dataset_Inl [of env s5 Panic] by auto
      ultimately show ?thesis by (auto simp: i_def)
    qed
  qed
qed

lemma set_seed_Inl_iff:
  assumes wf: "well_formed s"
  shows "set_seed env late_stop seed s = Inl f \<longleftrightarrow>
    \<not> m_stopped s \<and> m_seed s ! unat (m_index s) \<noteq> seed \<and> \<not> late_stop \<and>
    (if m_vm s ! unat (m_index s XOR 1) = None \<and>
        \<not> create_vm_ok env (insert RANDOMX_FLAG_LARGE_PAGES (get_flags env))
            (Some (unat (m_index s XOR 1))) False \<and>
        \<not> create_vm_ok env (get_flags env) (Some (unat (m_index s XOR 1))) False
     then f = Panic
     else f = DatasetOverrun \<and>
       (\<exists>items a n. m_dataset s = Some items \<and>
          (a, n) \<in> set (dataset_ranges (dataset_item_count env) (hardware_concurrency env)) \<and>
          length items < unat a + unat n))"
proof -
  define i where "i = unat (m_index s XOR 1)"
  define s4 where "s4 = randomx_init_cache i ((m_seed s)[i := seed] ! i)
      (s\<lparr>m_setSeedCounter := m_setSeedCounter s + 1, m_stopped := False,
         m_index := m_index s XOR 1, m_seed := (m_seed s)[i := seed]\<rparr>)"
  have vm4: "m_vm s4 = m_vm s" and ds4: "m_dataset s4 = m_dataset s"
    by (simp_all add: s4_def)
  show ?thesis
  proof (cases "m_stopped s \<or> m_seed s ! unat (m_index s) = seed \<or> late_stop")
    case True
    then have "\<exists>t. set_seed env late_stop seed s = Inr t"
      by (auto simp: set_seed_def Let_def)
    with True show ?thesis by auto
  next
    case False
    then have eq: "set_seed env late_stop seed s =
      (case update_slot_vm env i s4 of Inl e \<Rightarrow> Inl e | Inr s5 \<Rightarrow> update_dataset env s5)"
      by (simp add: set_seed_def Let_def i_def s4_def)
    show ?thesis
    proof (cases "update_slot_vm env i s4")
      case (Inl e)
      with eq update_slot_vm_Inl [of env i s4 e] False vm4 show ?thesis
        by (auto simp: i_def)
    next
      case (Inr s5)
      with update_slot_vm_Inl [of env i s4 Panic] vm4
      have ok: "\<not> (m_vm s ! i = None \<and>
          \<not> create_vm_ok env (insert RANDOMX_FLAG_LARGE_PAGES (get_flags env)) (Some i) False \<and>
          \<not> create_vm_ok env (get_flags env) (Some i) False)"
        by auto
      have ds5: "m_dataset s5 = m_dataset s"
        using update_slot_vm_Inr(2) [OF Inr] ds4 by simp
      have "set_seed env late_stop seed s = Inl f \<longleftrightarrow> update_dataset env s5 = Inl f"
        using eq Inr by simp
      also have "\<dots> \<longleftrightarrow> f = DatasetOverrun \<and>
         (\<exists>items a n. m_dataset s = Some items \<and>
            (a, n) \<in> set (dataset_ranges (dataset_item_count env) (hardware_concurrency env)) \<and>
            length items < unat a + unat n)"
        unfolding update_dataset_Inl_iff ds5 ..
      finally have fault: "set_seed env late_stop seed s = Inl f \<longleftrightarrow> f = DatasetOverrun \<and>
         (\<exists>items a n. m_dataset s = Some items \<and>
            (a, n) \<in> set (dataset_ranges (dataset_item_count env) (hardware_concurrency env)) \<and>
            length items < unat a + unat n)" .
      have run: "\<not> m_stopped s \<and> m_seed s ! unat (m_index s) \<noteq> seed \<and> \<not> late_stop"
        using False by blast
      show ?thesis
        unfolding fault using ok [unfolded i_def] run by (simp only: if_not_P simp_thms)
    qed
  qed
qed

lemma set_seed_rotates_dataset:
  assumes wf: "well_formed s" and run: "\<not> m_stopped s"
    and new: "m_seed s ! unat (m_index s) \<noteq> seed"
    and ok: "set_seed env False seed s = Inr s'"
  shows "(m_dataset s = None \<longrightarrow>
            m_dataset s' = None \<and> m_vm s' ! FULL_DATASET_VM = m_vm s ! FULL_DATASET_VM)"
    and "(m_vm s ! FULL_DATASET_VM = None \<longrightarrow>
           \<not> create_vm_ok env (insert RANDOMX_FLAG_FULL_MEM
                (insert RANDOMX_FLAG_LARGE_PAGES (get_flags env))) None True \<longrightarrow>
           \<not> create_vm_ok env (get_flags env) None True \<longrightarrow>
           m_vm s' ! FULL_DATASET_VM = None)"
    and "(m_dataset s \<noteq> None \<longrightarrow>
           (create_vm_ok env (insert RANDOMX_FLAG_FULL_MEM
                (insert RANDOMX_FLAG_LARGE_PAGES (get_flags env))) None True \<or>
            create_vm_ok env (get_flags env) None True) \<longrightarrow>
           m_vm s' ! FULL_DATASET_VM \<noteq> None)"
proof -
  define i where "i = unat (m_index s XOR 1)"
  have i: "i < 2" "i \<noteq> FULL_DATASET_VM"
    using index_cases [OF wf] by (auto simp: i_def FULL_DATASET_VM_def)
  have len: "length (m_vm s) = 3"
    using wf by (simp add: well_formed_def)
  from run new ok obtain s5 where
    s5: "update_slot_vm env i (randomx_init_cache i ((m_seed s)[i := seed] ! i)
      (s\<lparr>m_setSeedCounter := m_setSeedCounter s + 1, m_stopped := False,
         m_index := m_index s XOR 1, m_seed := (m_seed s)[i := seed]\<rparr>)) = Inr s5"
    and s': "update_dataset env s5 = Inr s'"
    by (auto simp: set_seed_def Let_def i_def split: sum.splits)
  from update_slot_vm_Inr [OF s5] obtain vm where
    f5: "m_dataset s5 = m_dataset s" "m_vm s5 = (m_vm s)[i := Some vm]"
    by auto
  have full5: "m_vm s5 ! FULL_DATASET_VM = m_vm s ! FULL_DATASET_VM" "length (m_vm s5) = 3"
    using f5 i len by simp_all
  show "m_dataset s = None \<longrightarrow>
      m_dataset s' = None \<and> m_vm s' ! FULL_DATASET_VM = m_vm s ! FULL_DATASET_VM"
    using s' f5 full5 by (auto simp: update_dataset_def)
  have built: "\<exists>t. m_vm t = m_vm s5 \<and> s' = create_full_vm env t" if "m_dataset s \<noteq> None"
  proof -
    from that f5 s' obtain t where
      t: "init_dataset_ranges (unat (m_index s5))
          (dataset_ranges (dataset_item_count env) (hardware_concurrency env)) s5 = Inr t"
      and "s' = create_full_vm env t"
      by (auto simp: update_dataset_def split: sum.splits option.splits)
    with init_dataset_ranges_Inr [OF t] show ?thesis by auto
  qed
  show "m_vm s ! FULL_DATASET_VM = None \<longrightarrow>
      \<not> create_vm_ok env (insert RANDOMX_FLAG_FULL_MEM
           (insert RANDOMX_FLAG_LARGE_PAGES (get_flags env))) None True \<longrightarrow>
      \<not> create_vm_ok env (get_flags env) None True \<longrightarrow>
      m_vm s' ! FULL_DATASET_VM = None"
  proof (cases "m_dataset s")
    case None
    with s' f5 full5 show ?thesis by (auto simp: update_dataset_def)
  next
    case (Some items)
    with built obtain t where "m_vm t = m_vm s5" "s' = create_full_vm env t" by auto
    with full5 show ?thesis
      by (auto simp: create_full_vm_def randomx_create_vm_def Let_def FULL_DATASET_VM_def)
  qed
  show "m_dataset s \<noteq> None \<longrightarrow>
      (create_vm_ok env (insert RANDOMX_FLAG_FULL_MEM
           (insert RANDOMX_FLAG_LARGE_PAGES (get_flags env))) None True \<or>
       create_vm_ok env (get_flags env) None True) \<longrightarrow>
      m_vm s' ! FULL_DATASET_VM \<noteq> None"
  proof (intro impI)
    assume ds: "m_dataset s \<noteq> None"
    assume can: "create_vm_ok env (insert RANDOMX_FLAG_FULL_MEM
           (insert RANDOMX_FLAG_LARGE_PAGES (get_flags env))) None True \<or>
       create_vm_ok env (get_flags env) None True"
    from built [OF ds] obtain t where "m_vm t = m_vm s5" "s' = create_full_vm env t" by auto
    with full5 can show "m_vm s' ! FULL_DATASET_VM \<noteq> None"
      by (auto simp: create_full_vm_def randomx_create_vm_def Let_def FULL_DATASET_VM_def
          split: option.splits)
  qed
qed

lemma set_seed_well_formed:
  assumes wf: "well_formed s" and ok: "set_seed env late_stop seed s = Inr s'"
  shows "well_formed s'"
  using set_seed_Inr_cases [OF ok] wf set_seed_rotates [of s seed env s']
  by (auto simp: well_formed_def)

lemma set_seed_overrun:
  assumes wf: "well_formed s" and run: "\<not> m_stopped s"
    and new: "m_seed s ! unat (m_index s) \<noteq> seed"
    and ds: "m_dataset s = Some items"
    and range: "(a, n) \<in> set (dataset_ranges (dataset_item_count env) (hardware_concurrency env))"
    and out: "length items < unat a + unat n"
  shows "set_seed env False seed s = Inl Panic \<or> set_seed env False seed s = Inl DatasetOverrun"
proof -
  define i where "i = unat (m_index s XOR 1)"
  define s4 where "s4 = randomx_init_cache i ((m_seed s)[i := seed] ! i)
      (s\<lparr>m_setSeedCounter := m_setSeedCounter s + 1, m_stopped := False,
         m_index := m_index s XOR 1, m_seed := (m_seed s)[i := seed]\<rparr>)"
  have eq: "set_seed env False seed s =
      (case update_slot_vm env i s4 of Inl e \<Rightarrow> Inl e | Inr s5 \<Rightarrow> update_dataset env s5)"
    using run new by (simp add: set_seed_def Let_def i_def s4_def)
  show ?thesis
  proof (cases "update_slot_vm env i s4")
    case (Inl e)
    with eq update_slot_vm_Inl [of env i s4 e] show ?thesis by simp
  next
    case (Inr s5)
    from update_slot_vm_Inr(2) [OF Inr] ds have ds5: "m_dataset s5 = Some items"
      by (simp add: s4_def)
    from init_dataset_ranges_overrun [OF ds5 range out]
    have "update_dataset env s5 = Inl DatasetOverrun"
      by (simp add: update_dataset_def ds5)
    with eq Inr show ?thesis by simp
  qed
qed

section \<open>Recording the previous seed\<close>

lemma wait_for_set_seed_Some:
  assumes "wait_for_set_seed world k s = Some s1"
  shows "\<exists>n. s1 = world_state world k n s \<and> m_setSeedCounter s1 \<noteq> 0 \<and>
    (\<forall>j<n. m_setSeedCounter (world_state world k j s) = 0)"
proof (rule wait_for_set_seed.raw_induct
    [where P = "\<lambda>world k s s1. \<exists>n. s1 = world_state world k n s \<and> m_setSeedCounter s1 \<noteq> 0 \<and>
       (\<forall>j<n. m_setSeedCounter (world_state world k j s) = 0)", OF _ assms])
  fix wait :: "(nat \<Rightarrow> RandomX_Hasher \<Rightarrow> RandomX_Hasher) \<Rightarrow> nat \<Rightarrow> RandomX_Hasher \<Rightarrow> RandomX_Hasher option"
  fix world k s s1
  assume IH: "\<And>world k s s1. wait world k s = Some s1 \<Longrightarrow>
    \<exists>n. s1 = world_state world k n s \<and> m_setSeedCounter s1 \<noteq> 0 \<and>
       (\<forall>j<n. m_setSeedCounter (world_state world k j s) = 0)"
  assume step: "(if m_setSeedCounter s = 0 then wait world (k + 1) (world k s) else Some s) = Some s1"
  show "\<exists>n. s1 = world_state world k n s \<and> m_setSeedCounter s1 \<noteq> 0 \<and>
       (\<forall>j<n. m_setSeedCounter (world_state world k j s) = 0)"
  proof (cases "m_setSeedCounter s = 0")
    case True
    with step have "wait world (k + 1) (world k s) = Some s1" by simp
    from IH [OF this] obtain n where
      n: "s1 = world_state world (k + 1) n (world k s)" "m_setSeedCounter s1 \<noteq> 0"
      "\<forall>j<n. m_setSeedCounter (world_state world (k + 1) j (world k s)) = 0"
      by blast
    have "\<forall>j<Suc n. m_setSeedCounter (world_state world k j s) = 0"
    proof (intro allI impI)
      fix j assume "j < Suc n"
      then show "m_setSeedCounter (world_state world k j s) = 0"
        using True n(3) by (cases j) auto
    qed
    with n(1,2) show ?thesis
      by (intro exI [of _ "Suc n"]) simp
  next
    case False
    with step have "s1 = s" by simp
    with False show ?thesis by (intro exI [of _ 0]) simp
  qed
qed

lemma wait_for_set_seed_returns:
  assumes "m_setSeedCounter (world_state world k n s) \<noteq> 0"
  shows "\<exists>s1. wait_for_set_seed world k s = Some s1"
  using assms
proof (induction n arbitrary: k s)
  case 0
  then show ?case by (simp add: wait_for_set_seed.simps)
next
  case (Suc n)
  show ?case
  proof (cases "m_setSeedCounter s = 0")
    case True
    from Suc.prems have "m_setSeedCounter (world_state world (Suc k) n (world k s)) \<noteq> 0"
      by simp
    from Suc.IH [OF this] True show ?thesis
      by (subst wait_for_set_seed.simps) simp
  next
    case False
    then show ?thesis by (simp add: wait_for_set_seed.simps)
  qed
qed

lemma wait_for_set_seed_never:
  assumes "\<And>n. m_setSeedCounter (world_state world k n s) = 0"
  shows "wait_for_set_seed world k s = None"
proof (cases "wait_for_set_seed world k s")
  case None
  then show ?thesis .
next
  case (Some s1)
  from wait_for_set_seed_Some [OF Some] assms show ?thesis by auto
qed

lemma world_stop_counter:
  "m_setSeedCounter (world_state (\<lambda>k. stop) k n s) = m_setSeedCounter s"
  by (induction n arbitrary: k s) (simp_all add: stop_def)

lemma set_old_seed_update_Inr:
  assumes wf: "well_formed s" and ok: "set_old_seed_update env seed s = Inr s'"
  shows "m_index s' = m_index s \<and> m_setSeedCounter s' = m_setSeedCounter s \<and>
    m_stopped s' = m_stopped s \<and> m_dataset s' = m_dataset s \<and>
    m_seed s' = (m_seed s)[unat (m_index s XOR 1) := seed] \<and>
    m_cache s' = (m_cache s)[unat (m_index s XOR 1) := Some seed] \<and>
    (\<exists>vm. m_vm s' = (m_vm s)[unat (m_index s XOR 1) := Some vm] \<and>
          vm_cache vm = Some (unat (m_index s XOR 1)))"
proof -
  define i where "i = unat (m_index s XOR 1)"
  have i: "i < 2"
    using index_cases [OF wf] by (auto simp: i_def)
  have len: "length (m_seed s) = 2"
    using wf by (simp add: well_formed_def)
  from ok have "update_slot_vm env i (randomx_init_cache i ((m_seed s)[i := seed] ! i)
      (s\<lparr>m_seed := (m_seed s)[i := seed]\<rparr>)) = Inr s'"
    by (simp add: set_old_seed_update_def Let_def i_def)
  from update_slot_vm_Inr [OF this] i len show ?thesis
    by (simp add: i_def [symmetric])
qed

lemma set_old_seed_update_Inl:
  "set_old_seed_update env seed s = Inl f \<longleftrightarrow>
    f = Panic \<and> m_vm s ! unat (m_index s XOR 1) = None \<and>
    \<not> create_vm_ok env (insert RANDOMX_FLAG_LARGE_PAGES (get_flags env))
        (Some (unat (m_index s XOR 1))) False \<and>
    \<not> create_vm_ok env (get_flags env) (Some (unat (m_index s XOR 1))) False"
  by (simp add: set_old_seed_update_def Let_def update_slot_vm_Inl)

lemma set_old_seed_update_well_formed:
  assumes wf: "well_formed s" and ok: "set_old_seed_update env seed s = Inr s'"
  shows "well_formed s'"
  using set_old_seed_update_Inr [OF wf ok] wf by (auto simp: well_formed_def)

section \<open>Hash computation\<close>

lemma stopped_refuses_calls:
  "m_stopped s \<Longrightarrow>
     calculate env tryrdlock_ok data seed result s = (False, result, s) \<and>
     set_seed env late_stop seed s = Inr s"
  by (simp add: calculate_def set_seed_def)

lemma calculate_succeeds_iff:
  "fst (calculate env tryrdlock_ok data seed result s) \<longleftrightarrow>
     \<not> m_stopped s \<and>
     ((tryrdlock_ok \<and> m_vm s ! FULL_DATASET_VM \<noteq> None \<and> seed = m_seed s ! unat (m_index s)) \<or>
      (m_vm s ! unat (m_index s) \<noteq> None \<and> seed = m_seed s ! unat (m_index s)) \<or>
      (m_vm s ! unat (m_index s XOR 1) \<noteq> None \<and> seed = m_seed s ! unat (m_index s XOR 1)))"
  by (simp add: calculate_def randomx_calculate_hash_def Let_def)

lemma calculate_success:
  assumes "fst (calculate env tryrdlock_ok data seed result s)"
  shows "calculate env tryrdlock_ok data seed result s =
    randomx_calculate_hash env (matching_vm tryrdlock_ok seed s) data s"
  using assms by (auto simp: calculate_def matching_vm_def Let_def split: if_splits)

lemma calculate_failure:
  assumes "\<not> fst (calculate env tryrdlock_ok data seed result s)"
  shows "calculate env tryrdlock_ok data seed result s = (False, result, s)"
  using assms by (auto simp: calculate_def randomx_calculate_hash_def Let_def split: if_splits)

lemma calculate_fields:
  assumes "calculate env tryrdlock_ok data seed result s = (ok, h, s')"
  shows "m_seed s' = m_seed s" "m_index s' = m_index s"
    "m_setSeedCounter s' = m_setSeedCounter s" "m_stopped s' = m_stopped s"
    "m_cache s' = m_cache s" "m_dataset s' = m_dataset s" "m_vm s' = m_vm s"
  using assms
  by (auto simp: calculate_def randomx_calculate_hash_def Let_def split: if_splits)

lemma set_seed_serves_new_seed:
  assumes wf: "well_formed s" and run: "\<not> m_stopped s"
    and new: "m_seed s ! unat (m_index s) \<noteq> seed"
    and ok: "set_seed env False seed s = Inr s'"
  shows "fst (calculate env' tryrdlock_ok data seed result s')"
proof -
  have len: "length (m_seed s) = 2"
    using wf by (simp add: well_formed_def)
  from set_seed_rotates [OF wf run new ok] index_cases [OF wf] len show ?thesis
    unfolding calculate_succeeds_iff by auto
qed

lemma later_disabled:
  assumes "later s s'" and "well_formed s" and "full_mode_disabled s"
  shows "well_formed s' \<and> full_mode_disabled s'"
  using assms
proof (induction rule: later.induct)
  case (later_refl s)
  then show ?case by simp
next
  case (later_set_seed s t env late_stop seed u)
  then have t: "well_formed t" "full_mode_disabled t" by simp_all
  from set_seed_Inr_cases [OF later_set_seed.hyps(2)] t
    set_seed_rotates_dataset(1) [of t seed env u]
  have "full_mode_disabled u"
    by (auto simp: full_mode_disabled_def)
  with set_seed_well_formed [OF t(1) later_set_seed.hyps(2)] show ?case by simp
next
  case (later_set_old_seed s t env seed u)
  then have t: "well_formed t" "full_mode_disabled t" by simp_all
  from set_old_seed_update_Inr [OF t(1) later_set_old_seed.hyps(2)] obtain vm where
    u: "m_dataset u = m_dataset t" "m_vm u = (m_vm t)[unat (m_index t XOR 1) := Some vm]"
    by auto
  have "unat (m_index t XOR 1) \<noteq> FULL_DATASET_VM"
    using index_cases [OF t(1)] by (auto simp: FULL_DATASET_VM_def)
  with u t(2) have "full_mode_disabled u"
    by (simp add: full_mode_disabled_def)
  with set_old_seed_update_well_formed [OF t(1) later_set_old_seed.hyps(2)] show ?case by simp
next
  case (later_calculate s t env tryrdlock_ok data seed result ok h u)
  then have t: "well_formed t" "full_mode_disabled t" by simp_all
  from calculate_fields [OF later_calculate.hyps(2)] t show ?case
    by (simp add: well_formed_def full_mode_disabled_def)
next
  case (later_stop s t)
  then show ?case by (simp add: stop_def well_formed_def full_mode_disabled_def)
qed

section \<open>The dataset rebuild when the products do not wrap\<close>

text \<open>
  When \<open>numItems * numThreads\<close> fits in 32 bits, thread \<open>i\<close> gets the items from
  \<open>numItems * i div numThreads\<close> up to \<open>numItems * (i + 1) div numThreads\<close>, the ranges
  follow one another from 0 to \<open>numItems\<close>, and the rebuild derives every item from the
  cache.
\<close>

lemma range_start:
  fixes N T i :: u32
  assumes small: "unat N * unat T < 2 ^ 32" and le: "i \<le> T"
  shows "unat ((N * i) div T) = unat N * unat i div unat T"
proof -
  have "unat i \<le> unat T"
    using le by (simp add: word_le_nat_alt)
  then have "unat N * unat i \<le> unat N * unat T"
    by simp
  with small have "unat N * unat i < 2 ^ 32"
    by linarith
  then have "unat (N * i) = unat N * unat i"
    by (simp add: unat_word_ariths)
  then show ?thesis
    by (simp add: unat_div)
qed

lemma u32_succ:
  fixes i T :: u32
  assumes "i < T"
  shows "unat (i + 1) = Suc (unat i)" and "i + 1 \<le> T"
proof -
  have lt: "unat i < unat T"
    using assms by (simp add: word_less_nat_alt)
  moreover have "unat T < 2 ^ 32"
    using unsigned_less [of T, where 'a = nat] by simp
  ultimately show "unat (i + 1) = Suc (unat i)"
    by (simp add: unat_word_ariths)
  with lt show "i + 1 \<le> T"
    by (simp add: word_le_nat_alt)
qed

lemma thread_range_exact:
  fixes N T i :: u32
  assumes small: "unat N * unat T < 2 ^ 32" and lt: "i < T"
  shows "thread_range N T i = (a, n) \<Longrightarrow>
    unat a = unat N * unat i div unat T \<and>
    unat a + unat n = unat N * Suc (unat i) div unat T \<and>
    unat a + unat n \<le> unat N"
proof -
  assume r: "thread_range N T i = (a, n)"
  define b where "b = (N * (i + 1)) div T"
  have a: "a = (N * i) div T" and n: "n = b - a"
    using r by (auto simp: thread_range_def Let_def b_def)
  have ua: "unat a = unat N * unat i div unat T"
    unfolding a using range_start [OF small] lt by simp
  have ub: "unat b = unat N * Suc (unat i) div unat T"
    unfolding b_def using range_start [OF small u32_succ(2) [OF lt]] u32_succ(1) [OF lt] by simp
  have "unat N * unat i \<le> unat N * Suc (unat i)"
    by simp
  then have "unat a \<le> unat b"
    unfolding ua ub by (rule div_le_mono)
  then have "a \<le> b"
    by (simp add: word_le_nat_alt)
  then have un: "unat n = unat b - unat a"
    unfolding n by (rule unat_sub)
  have pos: "0 < unat T"
    using lt by (simp add: word_less_nat_alt)
  have "Suc (unat i) \<le> unat T"
    using lt by (simp add: word_less_nat_alt)
  then have "unat N * Suc (unat i) \<le> unat N * unat T"
    by (rule mult_le_mono2)
  then have "unat N * Suc (unat i) div unat T \<le> unat N * unat T div unat T"
    by (rule div_le_mono)
  then have "unat b \<le> unat N"
    using pos by (simp add: ub)
  with ua ub un \<open>unat a \<le> unat b\<close> show ?thesis
    by simp
qed

lemma thread_ranges_cover:
  fixes N T i :: u32
  shows "unat N * unat T < 2 ^ 32 \<Longrightarrow> i \<le> T \<Longrightarrow> 0 < T \<Longrightarrow>
    concat (map (\<lambda>(a, n). [unat a ..< unat a + unat n]) (thread_ranges N T i))
      = [unat N * unat i div unat T ..< unat N]"
proof (induction N T i rule: thread_ranges.induct)
  case (1 N T i)
  note small = "1.prems"(1) and le_T = "1.prems"(2) and pos_T = "1.prems"(3)
  have pos: "0 < unat T"
    using pos_T by (simp add: word_less_nat_alt)
  show ?case
  proof (cases "i < T")
    case False
    with le_T have "i = T" by simp
    then have "unat N * unat i div unat T = unat N"
      using pos by simp
    with False show ?thesis
      by (subst thread_ranges.simps) simp
  next
    case True
    obtain a n where r: "thread_range N T i = (a, n)"
      by (cases "thread_range N T i")
    from thread_range_exact [OF small True r]
    have a: "unat a = unat N * unat i div unat T"
      and b: "unat a + unat n = unat N * Suc (unat i) div unat T"
      and le: "unat a + unat n \<le> unat N"
      by simp_all
    from "1.IH" [OF True small u32_succ(2) [OF True] pos_T] u32_succ(1) [OF True] b
    have rest: "concat (map (\<lambda>(a, n). [unat a ..< unat a + unat n]) (thread_ranges N T (i + 1)))
      = [unat a + unat n ..< unat N]"
      by simp
    have "[unat a ..< unat a + unat n] @ [unat a + unat n ..< unat N] = [unat a ..< unat N]"
      using upt_add_eq_append [of "unat a" "unat a + unat n" "unat N - (unat a + unat n)"] le
      by simp
    with True r rest a show ?thesis
      by (subst thread_ranges.simps) simp
  qed
qed

lemma dataset_ranges_cover:
  assumes small: "unat N * unat (num_threads hw) < 2 ^ 32"
  shows "concat (map (\<lambda>(a, n). [unat a ..< unat a + unat n]) (dataset_ranges N hw)) = [0 ..< unat N]"
proof (cases "num_threads hw > 1")
  case True
  then have pos: "0 < num_threads hw"
    by (simp add: word_less_nat_alt)
  from thread_ranges_cover [OF small _ pos, of 0] True show ?thesis
    by (simp add: dataset_ranges_def Let_def)
next
  case False
  then show ?thesis
    by (simp add: dataset_ranges_def Let_def)
qed

lemma init_thread_ranges:
  fixes N T i :: u32
  shows "unat N * unat T < 2 ^ 32 \<Longrightarrow> i \<le> T \<Longrightarrow> 0 < T \<Longrightarrow> m_dataset s = Some items \<Longrightarrow> length items = unat N \<Longrightarrow>
    take (unat N * unat i div unat T) items
      = replicate (unat N * unat i div unat T) (m_cache s ! c) \<Longrightarrow>
    \<exists>s'. init_dataset_ranges c (thread_ranges N T i) s = Inr s' \<and>
         m_dataset s' = Some (replicate (unat N) (m_cache s ! c))"
proof (induction N T i arbitrary: s items rule: thread_ranges.induct)
  case (1 N T i)
  note small = "1.prems"(1) and le_T = "1.prems"(2) and pos_T = "1.prems"(3)
    and ds = "1.prems"(4) and len_items = "1.prems"(5) and prefix = "1.prems"(6)
  define k where "k = m_cache s ! c"
  have pos: "0 < unat T"
    using pos_T by (simp add: word_less_nat_alt)
  show ?case
  proof (cases "i < T")
    case False
    with le_T have "i = T" by simp
    then have "unat N * unat i div unat T = unat N"
      using pos by simp
    with len_items prefix have "items = replicate (unat N) (m_cache s ! c)"
      by simp
    with False ds show ?thesis
      by (subst thread_ranges.simps) simp
  next
    case True
    obtain a n where r: "thread_range N T i = (a, n)"
      by (cases "thread_range N T i")
    from thread_range_exact [OF small True r]
    have a: "unat a = unat N * unat i div unat T"
      and b: "unat a + unat n = unat N * Suc (unat i) div unat T"
      and le: "unat a + unat n \<le> unat N"
      by simp_all
    define items' where "items' = take (unat a) items @ replicate (unat n) k
      @ drop (unat a + unat n) items"
    define t where "t = log_call (InitDataset c a n) (s\<lparr>m_dataset := Some items'\<rparr>)"
    have step: "randomx_init_dataset c a n s = Inr t"
      using ds len_items le
      by (simp add: randomx_init_dataset_def t_def items'_def k_def)
    have t: "m_dataset t = Some items'" "m_cache t ! c = k"
      by (simp_all add: t_def k_def)
    have len: "length items' = unat N"
      using len_items le by (simp add: items'_def)
    have pre: "take (unat a) items = replicate (unat a) k"
      using prefix a by (simp add: k_def)
    have "take (unat a + unat n) items' = replicate (unat a + unat n) k"
      using len_items le by (simp add: items'_def pre replicate_add)
    then have pre': "take (unat N * unat (i + 1) div unat T) items'
        = replicate (unat N * unat (i + 1) div unat T) (m_cache t ! c)"
      using b u32_succ(1) [OF True] t(2) by simp
    from "1.IH" [OF True small u32_succ(2) [OF True] pos_T t(1) len pre']
    obtain s' where "init_dataset_ranges c (thread_ranges N T (i + 1)) t = Inr s'"
      "m_dataset s' = Some (replicate (unat N) (m_cache t ! c))"
      by blast
    with True r step t(2) show ?thesis
      by (subst thread_ranges.simps) (simp add: k_def)
  qed
qed

lemma init_dataset_ranges_exact:
  assumes small: "unat N * unat (num_threads hw) < 2 ^ 32"
    and ds: "m_dataset s = Some items" and len: "length items = unat N"
  shows "\<exists>s'. init_dataset_ranges c (dataset_ranges N hw) s = Inr s' \<and>
         m_dataset s' = Some (replicate (unat N) (m_cache s ! c))"
proof (cases "num_threads hw > 1")
  case True
  then have pos: "0 < num_threads hw"
    by (simp add: word_less_nat_alt)
  have "take (unat N * unat (0 :: u32) div unat (num_threads hw)) items
      = replicate (unat N * unat (0 :: u32) div unat (num_threads hw)) (m_cache s ! c)"
    by simp
  from init_thread_ranges [OF small _ pos ds len this] True show ?thesis
    by (simp add: dataset_ranges_def Let_def)
next
  case False
  then show ?thesis
    using ds len by (simp add: dataset_ranges_def Let_def randomx_init_dataset_def)
qed

section \<open>Consistency is established and kept\<close>

text \<open>
  The constructor returns a consistent object, and \<open>calculate\<close>, stopping,
  \<open>set_old_seed\<close> and \<open>set_seed\<close> keep an object consistent (the last when the dataset
  has the engine's item count and the products of the rebuild do not wrap).
\<close>

lemma consistent_reads:
  assumes "consistent s"
  shows "slot_consistent s i \<Longrightarrow> m_vm s ! i = Some vm \<Longrightarrow> keyed_by (m_seed s ! i) (vm_reads s vm)"
    and "m_vm s ! FULL_DATASET_VM = Some vm \<Longrightarrow>
      keyed_by (m_seed s ! unat (m_index s)) (vm_reads s vm) \<and> m_vm s ! unat (m_index s) \<noteq> None"
  using assms
  by (auto simp: consistent_def slot_consistent_def dataset_consistent_def keyed_by_def vm_reads_def
      split: option.splits)

lemma consistent_fields:
  assumes "consistent s"
    and "m_vm s' = m_vm s" "m_cache s' = m_cache s" "m_seed s' = m_seed s"
    and "m_index s' = m_index s" "m_dataset s' = m_dataset s"
  shows "consistent s'"
  using assms
  by (auto simp: consistent_def well_formed_def slot_consistent_def dataset_consistent_def
      split: option.splits)

lemma ctor_consistent:
  assumes "RandomX_Hasher_ctor env lightMode = Inr s"
  shows "consistent s"
  using ctor_Inr(3,4) [OF assms]
  by (simp add: consistent_def slot_consistent_def dataset_consistent_def FULL_DATASET_VM_def)

lemma calculate_consistent:
  assumes "consistent s" and "calculate env tryrdlock_ok data seed result s = (ok, h, s')"
  shows "consistent s'"
  using assms(1) calculate_fields [OF assms(2)] by (auto intro: consistent_fields)

lemma stop_consistent: "consistent s \<Longrightarrow> consistent (stop s)"
  by (rule consistent_fields) (simp_all add: stop_def)

lemma set_old_seed_update_consistent:
  assumes cons: "consistent s" and ok: "set_old_seed_update env seed s = Inr s'"
  shows "consistent s'"
proof -
  have wf: "well_formed s"
    using cons by (simp add: consistent_def)
  have len: "length (m_seed s) = 2" "length (m_cache s) = 2" "length (m_vm s) = 3"
    using wf by (simp_all add: well_formed_def)
  from set_old_seed_update_Inr [OF wf ok] obtain vm where
    f: "m_index s' = m_index s" "m_dataset s' = m_dataset s"
      "m_seed s' = (m_seed s)[unat (m_index s XOR 1) := seed]"
      "m_cache s' = (m_cache s)[unat (m_index s XOR 1) := Some seed]"
      "m_vm s' = (m_vm s)[unat (m_index s XOR 1) := Some vm]"
      "vm_cache vm = Some (unat (m_index s XOR 1))"
    by auto
  from index_cases [OF wf] cons f len set_old_seed_update_well_formed [OF wf ok] show ?thesis
    by (auto simp: consistent_def slot_consistent_def dataset_consistent_def FULL_DATASET_VM_def
        split: option.splits)
qed

lemma create_full_vm_shape:
  assumes "m_vm (create_full_vm env t) ! FULL_DATASET_VM = Some vm"
    and "FULL_DATASET_VM < length (m_vm t)"
  shows "m_vm t ! FULL_DATASET_VM = Some vm \<or> (vm_cache vm = None \<and> vm_dataset vm)"
  using assms
  by (auto simp: create_full_vm_def randomx_create_vm_def Let_def split: option.splits if_splits)

lemma set_seed_rotates_consistent:
  assumes cons: "consistent s" and run: "\<not> m_stopped s"
    and new: "m_seed s ! unat (m_index s) \<noteq> seed"
    and ok: "set_seed env False seed s = Inr s'"
    and size: "\<And>items. m_dataset s = Some items \<Longrightarrow> length items = unat (dataset_item_count env)"
    and small: "unat (dataset_item_count env) * unat (num_threads (hardware_concurrency env)) < 2 ^ 32"
  shows "consistent s'"
proof -
  have wf: "well_formed s"
    using cons by (simp add: consistent_def)
  define i where "i = unat (m_index s XOR 1)"
  define j where "j = unat (m_index s)"
  have ij: "(i = 0 \<and> j = 1) \<or> (i = 1 \<and> j = 0)"
    using index_cases [OF wf] by (auto simp: i_def j_def)
  have len: "length (m_seed s) = 2" "length (m_vm s) = 3" "length (m_cache s) = 2"
    using wf by (simp_all add: well_formed_def)
  from run new ok obtain s5 where
    s5: "update_slot_vm env i (randomx_init_cache i ((m_seed s)[i := seed] ! i)
      (s\<lparr>m_setSeedCounter := m_setSeedCounter s + 1, m_stopped := False,
         m_index := m_index s XOR 1, m_seed := (m_seed s)[i := seed]\<rparr>)) = Inr s5"
    and s': "update_dataset env s5 = Inr s'"
    by (auto simp: set_seed_def Let_def i_def split: sum.splits)
  from update_slot_vm_Inr [OF s5] obtain vm where
    f5: "m_cache s5 = (m_cache s)[i := Some seed]" "m_seed s5 = (m_seed s)[i := seed]"
      "m_index s5 = m_index s XOR 1" "m_dataset s5 = m_dataset s"
      "m_vm s5 = (m_vm s)[i := Some vm]" "vm_cache vm = Some i"
    using ij len by auto
  note rot = set_seed_rotates [OF wf run new ok]
  have wf': "well_formed s'"
    using rot by simp
  have idx': "unat (m_index s') = i"
    using rot by (simp add: i_def)
  from update_dataset_Inr [OF s'] f5
  have f': "m_cache s' = (m_cache s)[i := Some seed]" "m_seed s' = (m_seed s)[i := seed]"
    "m_vm s' ! i = Some vm" "m_vm s' ! j = m_vm s ! j"
    using ij len by (auto simp: FULL_DATASET_VM_def)
  have slot_i: "slot_consistent s' i"
    using f' f5(6) ij len by (auto simp: slot_consistent_def)
  have "slot_consistent s j"
    using cons ij by (auto simp: consistent_def)
  then have slot_j: "slot_consistent s' j"
    using f' ij len by (auto simp: slot_consistent_def split: option.splits)
  have old_full: "vm_cache fv = None \<and> vm_dataset fv \<and> m_dataset s \<noteq> None"
    if "m_vm s ! FULL_DATASET_VM = Some fv" for fv
    using cons that by (auto simp: consistent_def dataset_consistent_def split: option.splits)
  have full5: "m_vm s5 ! FULL_DATASET_VM = m_vm s ! FULL_DATASET_VM"
    using f5(5) ij by (auto simp: FULL_DATASET_VM_def)
  have full: "dataset_consistent s'"
  proof (cases "m_dataset s")
    case None
    with s' f5(4) have "s' = s5"
      by (simp add: update_dataset_def)
    moreover have "m_vm s ! FULL_DATASET_VM = None"
      using old_full None by (cases "m_vm s ! FULL_DATASET_VM") auto
    ultimately show ?thesis
      using full5 by (simp add: dataset_consistent_def)
  next
    case (Some items)
    have ds5: "m_dataset s5 = Some items"
      using Some f5(4) by simp
    from init_dataset_ranges_exact [OF small ds5 size [OF Some], of i] obtain t where
      t: "init_dataset_ranges i (dataset_ranges (dataset_item_count env)
            (hardware_concurrency env)) s5 = Inr t"
      and dt: "m_dataset t = Some (replicate (unat (dataset_item_count env)) (m_cache s5 ! i))"
      by blast
    have key: "m_cache s5 ! i = Some seed"
      using f5(1) ij len by auto
    have s'_eq: "s' = create_full_vm env t"
      using s' ds5 t f5(3) by (simp add: update_dataset_def i_def)
    have vt: "m_vm t = m_vm s5"
      using init_dataset_ranges_Inr [OF t] by simp
    have ds': "m_dataset s' = Some (replicate (unat (dataset_item_count env)) (Some seed))"
      using s'_eq dt key by (simp add: create_full_vm_fields)
    have cur': "m_seed s' ! unat (m_index s') = seed"
      using f'(2) idx' ij len by auto
    show ?thesis
    proof (cases "m_vm s' ! FULL_DATASET_VM")
      case None
      then show ?thesis by (simp add: dataset_consistent_def)
    next
      case (Some fv)
      have "FULL_DATASET_VM < length (m_vm t)"
        using vt f5(5) len by (simp add: FULL_DATASET_VM_def)
      from create_full_vm_shape [OF Some [unfolded s'_eq] this] vt full5 old_full
      have "vm_cache fv = None \<and> vm_dataset fv"
        by auto
      with Some ds' cur' f'(3) idx' show ?thesis
        by (simp add: dataset_consistent_def list_all_iff)
    qed
  qed
  from wf' slot_i slot_j full ij show ?thesis
    by (auto simp: consistent_def)
qed

lemma set_seed_consistent:
  assumes cons: "consistent s" and ok: "set_seed env late_stop seed s = Inr s'"
    and size: "\<And>items. m_dataset s = Some items \<Longrightarrow> length items = unat (dataset_item_count env)"
    and small: "unat (dataset_item_count env) * unat (num_threads (hardware_concurrency env)) < 2 ^ 32"
  shows "consistent s'"
proof -
  from set_seed_Inr_cases [OF ok]
  consider "s' = s" | "s' = s\<lparr>m_setSeedCounter := m_setSeedCounter s + 1\<rparr>"
    | "s' = s\<lparr>m_setSeedCounter := m_setSeedCounter s + 1, m_stopped := True\<rparr>"
    | "\<not> m_stopped s" "m_seed s ! unat (m_index s) \<noteq> seed" "set_seed env False seed s = Inr s'"
    by blast
  then show ?thesis
  proof cases
    case 1
    with cons show ?thesis by simp
  next
    case 2
    with cons show ?thesis by (auto intro: consistent_fields)
  next
    case 3
    with cons show ?thesis by (auto intro: consistent_fields)
  next
    case 4
    from set_seed_rotates_consistent [OF cons 4 size small] show ?thesis .
  qed
qed

section \<open>Facts about the concrete runs\<close>

lemma demo_run:
  "RandomX_Hasher_ctor demo_engine False = Inr demo_s0"
  "set_seed demo_engine False 10 demo_s0 = Inr demo_s1"
  "set_seed demo_engine False 11 demo_s1 = Inr demo_s2"
  "set_old_seed_update demo_engine 10 demo_s2 = Inr demo_s3"
  "set_seed demo_engine False 12 demo_s3 = Inr demo_s4"
  "set_seed demo_engine False 12 demo_s2 = Inr demo_r3"
  by code_simp+

lemma demo_s0_facts: "well_formed demo_s0" "\<not> m_stopped demo_s0"
  by code_simp+

lemma demo_s0_counter: "m_setSeedCounter demo_s0 = 0"
  by code_simp

lemma demo_s4_facts:
  "m_seed demo_s4 ! unat (m_index demo_s4) = 12"
  "m_setSeedCounter demo_s4 = 3"
  "\<not> m_stopped demo_s4"
  by code_simp+

lemma demo_s4_evicted: "\<not> fst (calculate demo_engine True [1, 2, 3] 10 7 demo_s4)"
  by code_simp

lemma demo_s4_consistent: "consistent demo_s4"
  by code_simp

lemma demo_s4_live: "live_slot_matches 12 demo_s4" "matching_vm True 12 demo_s4 = FULL_DATASET_VM"
  by code_simp+

lemma demo_world_run:
  "set_old_seed demo_engine demo_world 10 demo_s0 = Some (Inr demo_w2)"
  by code_simp

lemma demo_world_states:
  "m_setSeedCounter (world_state demo_world 0 0 demo_s0) = 0"
  "m_setSeedCounter (world_state demo_world 0 1 demo_s0) = 0"
  "m_setSeedCounter (world_state demo_world 0 2 demo_s0) \<noteq> 0"
  "world_state demo_world 0 2 demo_s0 = demo_w1"
  "well_formed demo_w1"
  by code_simp+

lemma flaky_run:
  "set_seed flaky_engine False 10 demo_s0 = Inr demo_f1"
  "set_seed demo_engine False 11 demo_f1 = Inr demo_f2"
  "RandomX_Hasher_ctor demo_engine True = Inr demo_l0"
  "set_seed demo_engine False 10 demo_l0 = Inr demo_l1"
  by code_simp+

lemma flaky_facts:
  "well_formed demo_f1" "\<not> m_stopped demo_f1" "m_seed demo_f1 ! unat (m_index demo_f1) \<noteq> 11"
  "m_dataset demo_f1 \<noteq> None" "m_seed demo_s0 ! unat (m_index demo_s0) \<noteq> 10"
  "m_vm demo_s0 ! FULL_DATASET_VM = None"
  "create_vm_ok demo_engine (insert RANDOMX_FLAG_FULL_MEM
       (insert RANDOMX_FLAG_LARGE_PAGES (get_flags demo_engine))) None True"
  "well_formed demo_l0" "full_mode_disabled demo_l0"
  by code_simp+

lemma flaky_engine_fails: "\<not> create_vm_ok flaky_engine f None True"
  by (simp add: flaky_engine_def)

lemma novm_facts:
  "m_vm demo_s0 ! unat (m_index demo_s0 XOR 1) = None"
  "\<not> create_vm_ok novm_engine f c d"
  by (code_simp, simp add: novm_engine_def)

lemma demo_x_run:
  "set_old_seed demo_engine (\<lambda>k s. s) 13 (stop demo_s4) = Some (Inr demo_x)"
  by code_simp

lemma epyc_ranges:
  "length (dataset_ranges 34078719 256) = 128"
  "dataset_ranges 34078719 256 ! 125 = (33279999, 266240)"
  "dataset_ranges 34078719 256 ! 126 = (33546239, 4261679104)"
  "dataset_ranges 34078719 256 ! 127 = (258047, 266240)"
  by code_simp+

lemma epyc_ctor:
  "RandomX_Hasher_ctor epyc_engine False =
     Inr (zero_initialized
       \<lparr>m_dataset := Some (replicate 34078719 None),
        engine_calls := [AllocDataset {RANDOMX_FLAG_LARGE_PAGES},
           AllocCache 0 {RANDOMX_FLAG_LARGE_PAGES, RANDOMX_FLAG_OTHER 0},
           AllocCache 1 {RANDOMX_FLAG_LARGE_PAGES, RANDOMX_FLAG_OTHER 0}]\<rparr>)"
  by (simp add: RandomX_Hasher_ctor_def ctor_alloc_dataset_def epyc_engine_def demo_engine_def
      zero_initialized_def Let_def log_call_def insert_commute)

section \<open>Hash computation against the caller's seed\<close>

text \<open>
  C1, as amended. On a consistent object \<open>calculate\<close> succeeds exactly when the
  Stopped Flag is clear and a live slot matches the caller's seed. When it succeeds, the
  hash is the engine's hash of the message on the memory of the first matching VM (full
  dataset when the lock attempt succeeded, then current slot, then previous slot), that
  memory is derived from the caller's seed, and this one engine call is the only change.
  When it fails the caller's result and the object are as they were.
\<close>

theorem calculate_matches_seed:
  assumes "consistent s"
  shows "case calculate env tryrdlock_ok data seed result s of
      (ok, h, s') \<Rightarrow>
        (ok \<longleftrightarrow> \<not> m_stopped s \<and> live_slot_matches seed s) \<and>
        (ok \<longrightarrow>
           (\<exists>vm. m_vm s ! matching_vm tryrdlock_ok seed s = Some vm \<and>
                 keyed_by seed (vm_reads s vm) \<and>
                 h = engine_hash env (vm_reads s vm) data) \<and>
           s' = log_call (CalculateHash (matching_vm tryrdlock_ok seed s) data) s) \<and>
        (\<not> ok \<longrightarrow> h = result \<and> s' = s)"
proof (cases "fst (calculate env tryrdlock_ok data seed result s)")
  case False
  have full: "m_vm s ! FULL_DATASET_VM \<noteq> None \<Longrightarrow> m_vm s ! unat (m_index s) \<noteq> None"
    using consistent_reads(2) [OF assms] by auto
  from False have "m_stopped s \<or> \<not> live_slot_matches seed s"
    unfolding calculate_succeeds_iff live_slot_matches_def using full
    by (cases tryrdlock_ok) auto
  with calculate_failure [OF False] show ?thesis by simp
next
  case True
  have wf: "well_formed s" and slots: "slot_consistent s 0" "slot_consistent s 1"
    using assms by (simp_all add: consistent_def)
  from True have live: "\<not> m_stopped s \<and> live_slot_matches seed s"
    unfolding calculate_succeeds_iff live_slot_matches_def by auto
  let ?A = "tryrdlock_ok \<and> m_vm s ! FULL_DATASET_VM \<noteq> None \<and> seed = m_seed s ! unat (m_index s)"
  let ?B = "m_vm s ! unat (m_index s) \<noteq> None \<and> seed = m_seed s ! unat (m_index s)"
  let ?C = "m_vm s ! unat (m_index s XOR 1) \<noteq> None \<and> seed = m_seed s ! unat (m_index s XOR 1)"
  from True have some: "?A \<or> ?B \<or> ?C"
    unfolding calculate_succeeds_iff by blast
  have cur: "slot_consistent s (unat (m_index s))"
    and prev: "slot_consistent s (unat (m_index s XOR 1))"
    using index_cases [OF wf] slots by auto
  define i where "i = matching_vm tryrdlock_ok seed s"
  have "\<exists>vm. m_vm s ! i = Some vm \<and> keyed_by seed (vm_reads s vm)"
  proof (cases ?A)
    case True
    then have "i = FULL_DATASET_VM"
      by (simp add: i_def matching_vm_def)
    with True consistent_reads(2) [OF assms] show ?thesis by auto
  next
    case notA: False
    show ?thesis
    proof (cases ?B)
      case True
      with notA have "i = unat (m_index s)"
        by (auto simp: i_def matching_vm_def)
      with True consistent_reads(1) [OF assms cur] show ?thesis by auto
    next
      case False
      with notA have "i = unat (m_index s XOR 1)"
        by (auto simp: i_def matching_vm_def)
      moreover from notA False some have ?C by blast
      ultimately show ?thesis
        using consistent_reads(1) [OF assms prev] by auto
    qed
  qed
  then obtain vm where vm: "m_vm s ! i = Some vm" "keyed_by seed (vm_reads s vm)"
    by blast
  from calculate_success [OF True] vm live show ?thesis
    by (simp add: randomx_calculate_hash_def i_def [symmetric])
qed

theorem calculate_matches_seed_witness:
  "consistent demo_s4 \<and> \<not> m_stopped demo_s4 \<and> live_slot_matches 12 demo_s4 \<and>
   fst (calculate demo_engine True [1, 2, 3] 12 0 demo_s4) \<and>
   snd (snd (calculate demo_engine True [1, 2, 3] 12 0 demo_s4)) =
     log_call (CalculateHash FULL_DATASET_VM [1, 2, 3]) demo_s4"
  using calculate_matches_seed [OF demo_s4_consistent, where env = demo_engine
      and tryrdlock_ok = True and data = "[1, 2, 3]" and seed = 12 and result = 0]
    demo_s4_consistent demo_s4_facts demo_s4_live
  by (auto split: prod.splits)

text \<open>
  C1, as stated, fails on a stopped object: the current slot matches the seed C and
  \<open>calculate\<close> returns failure, with or without the dataset lock.
\<close>

theorem calculate_refuses_when_stopped:
  "consistent (stop demo_s4) \<and> live_slot_matches 12 (stop demo_s4) \<and>
   \<not> fst (calculate demo_engine True [1, 2, 3] 12 0 (stop demo_s4)) \<and>
   \<not> fst (calculate demo_engine False [1, 2, 3] 12 0 (stop demo_s4))"
  by code_simp

section \<open>Rotation keeps two seeds\<close>

text \<open>
  C2. After \<open>set_seed\<close> has returned for three pairwise distinct seeds S1, S2, S3 on an
  object that is not stopped, the second and third rotation have each flipped the epoch
  index, stored the new seed in the now-current slot and left the previously current
  seed in the other slot; \<open>calculate\<close> fails for S1 and succeeds for S2 and S3, for
  every message: it succeeds for exactly the seeds S2 and S3.
\<close>

theorem rotation_keeps_two_seeds:
  assumes wf: "well_formed s0" and run: "\<not> m_stopped s0"
    and distinct: "S1 \<noteq> S2" "S1 \<noteq> S3" "S2 \<noteq> S3"
    and r1: "set_seed e1 False S1 s0 = Inr s1"
    and r2: "set_seed e2 False S2 s1 = Inr s2"
    and r3: "set_seed e3 False S3 s2 = Inr s3"
  shows "m_index s2 = m_index s1 XOR 1 \<and> m_seed s2 ! unat (m_index s2) = S2 \<and>
    m_seed s2 ! unat (m_index s1) = S1 \<and>
    m_index s3 = m_index s2 XOR 1 \<and> m_seed s3 ! unat (m_index s3) = S3 \<and>
    m_seed s3 ! unat (m_index s2) = S2 \<and>
    \<not> fst (calculate env tryrdlock_ok data S1 result s3) \<and>
    fst (calculate env tryrdlock_ok data S2 result s3) \<and>
    fst (calculate env tryrdlock_ok data S3 result s3) \<and>
    (fst (calculate env tryrdlock_ok data seed result s3) \<longleftrightarrow> seed = S2 \<or> seed = S3)"
proof -
  from set_seed_makes_current [OF wf run r1]
  have s1: "well_formed s1" "\<not> m_stopped s1" "m_seed s1 ! unat (m_index s1) = S1"
    by simp_all
  then have new2: "m_seed s1 ! unat (m_index s1) \<noteq> S2"
    using distinct by simp
  note rot2 = set_seed_rotates [OF s1(1) s1(2) new2 r2]
  have i1: "unat (m_index s1) < 2" "unat (m_index s1 XOR 1) < 2"
    "unat (m_index s1 XOR 1) \<noteq> unat (m_index s1)" "(m_index s1 XOR 1) XOR 1 = m_index s1"
    using index_cases [OF s1(1)] by auto
  have len1: "length (m_seed s1) = 2"
    using s1(1) by (simp add: well_formed_def)
  from rot2 have s2: "well_formed s2" "\<not> m_stopped s2" "m_index s2 = m_index s1 XOR 1"
    "m_seed s2 = (m_seed s1)[unat (m_index s1 XOR 1) := S2]"
    by simp_all
  have cur2: "m_seed s2 ! unat (m_index s2) = S2" "m_seed s2 ! unat (m_index s1) = S1"
    using s2 i1 len1 s1(3) by simp_all
  from rot2 obtain vm2 where vm2: "m_vm s2 ! unat (m_index s2) = Some vm2"
    using s2(3) by auto
  have new3: "m_seed s2 ! unat (m_index s2) \<noteq> S3"
    using cur2 distinct by simp
  note rot3 = set_seed_rotates [OF s2(1) s2(2) new3 r3]
  have i2: "unat (m_index s2) < 2" "unat (m_index s2 XOR 1) < 2"
    "unat (m_index s2 XOR 1) \<noteq> unat (m_index s2)" "(m_index s2 XOR 1) XOR 1 = m_index s2"
    using index_cases [OF s2(1)] by auto
  have len2: "length (m_seed s2) = 2"
    using s2(1) by (simp add: well_formed_def)
  from rot3 have s3: "\<not> m_stopped s3" "m_index s3 = m_index s2 XOR 1"
    "m_seed s3 = (m_seed s2)[unat (m_index s2 XOR 1) := S3]"
    "m_vm s3 ! unat (m_index s2) = Some vm2"
    using vm2 by simp_all
  have cur3: "m_seed s3 ! unat (m_index s3) = S3" "m_seed s3 ! unat (m_index s2) = S2"
    using s3 i2 len2 cur2 by simp_all
  from rot3 obtain vm3 where vm3: "m_vm s3 ! unat (m_index s3) = Some vm3"
    using s3(2) by auto
  have prev3: "m_index s3 XOR 1 = m_index s2"
    using s3(2) i2(4) by simp
  have calc: "fst (calculate env tryrdlock_ok data x result s3) \<longleftrightarrow> x = S2 \<or> x = S3" for x
    unfolding calculate_succeeds_iff using s3(1) cur3 vm3 s3(4) prev3 by auto
  show ?thesis
    using s2(3) cur2 s3(2) cur3 calc distinct by simp
qed

theorem rotation_keeps_two_seeds_witness:
  "well_formed demo_s0 \<and> \<not> m_stopped demo_s0 \<and>
   set_seed demo_engine False 10 demo_s0 = Inr demo_s1 \<and>
   set_seed demo_engine False 11 demo_s1 = Inr demo_s2 \<and>
   set_seed demo_engine False 12 demo_s2 = Inr demo_r3 \<and>
   m_index demo_r3 = m_index demo_s2 XOR 1 \<and>
   m_seed demo_r3 ! unat (m_index demo_r3) = 12 \<and>
   m_seed demo_r3 ! unat (m_index demo_s2) = 11 \<and>
   \<not> fst (calculate demo_engine True [1, 2, 3] 10 0 demo_r3) \<and>
   fst (calculate demo_engine True [1, 2, 3] 11 0 demo_r3) \<and>
   fst (calculate demo_engine True [1, 2, 3] 12 0 demo_r3)"
proof -
  have distinct: "(10 :: hash) \<noteq> 11" "(10 :: hash) \<noteq> 12" "(11 :: hash) \<noteq> 12"
    by simp_all
  from rotation_keeps_two_seeds [OF demo_s0_facts distinct demo_run(2) demo_run(3) demo_run(6),
      of demo_engine True "[1, 2, 3]" 0 10]
  show ?thesis using demo_s0_facts demo_run(2) demo_run(3) demo_run(6) by blast
qed

section \<open>Equal seeds, late stops and reads\<close>

text \<open>
  C3. When the new seed equals the current slot's seed, \<open>set_seed\<close> returns the object
  it was given with nothing changed but the rotation counter (incremented when the
  object is not stopped): epoch index, seeds, caches, VMs and dataset are the same and
  no engine call is made.
\<close>

theorem set_seed_equal_seed_noop:
  "m_seed s ! unat (m_index s) = seed \<Longrightarrow>
     set_seed env late_stop seed s =
       Inr (s\<lparr>m_setSeedCounter :=
                (if m_stopped s then m_setSeedCounter s else m_setSeedCounter s + 1)\<rparr>)"
  by (simp add: set_seed_def)

theorem set_seed_equal_seed_noop_witness:
  "m_seed demo_s4 ! unat (m_index demo_s4) = 12 \<and>
   set_seed demo_engine False 12 demo_s4 = Inr (demo_s4\<lparr>m_setSeedCounter := 4\<rparr>)"
proof -
  have cur: "m_seed demo_s4 ! unat (m_index demo_s4) = 12"
    by (rule demo_s4_facts)
  from set_seed_equal_seed_noop [OF cur, of demo_engine False]
  show ?thesis using demo_s4_facts by simp
qed

text \<open>
  C10. When the flag is clear at entry, the seed differs from the current slot's and
  the flag is found set at the second load, \<open>set_seed\<close> returns the object with the
  counter incremented and nothing else changed by the call (the flag itself was set by
  the other thread).
\<close>

theorem set_seed_late_stop:
  "\<not> m_stopped s \<Longrightarrow> m_seed s ! unat (m_index s) \<noteq> seed \<Longrightarrow>
     set_seed env True seed s =
       Inr (s\<lparr>m_setSeedCounter := m_setSeedCounter s + 1, m_stopped := True\<rparr>)"
  by (simp add: set_seed_def)

theorem set_seed_late_stop_witness:
  "\<not> m_stopped demo_s4 \<and> m_seed demo_s4 ! unat (m_index demo_s4) \<noteq> 13 \<and>
   set_seed demo_engine True 13 demo_s4 =
     Inr (demo_s4\<lparr>m_setSeedCounter := 4, m_stopped := True\<rparr>)"
proof -
  have running: "\<not> m_stopped demo_s4"
    by (rule demo_s4_facts)
  have other: "m_seed demo_s4 ! unat (m_index demo_s4) \<noteq> 13"
    by (simp add: demo_s4_facts)
  from set_seed_late_stop [OF running other, of demo_engine]
  show ?thesis using running other demo_s4_facts by simp
qed

text \<open>
  C9. \<open>calculate\<close> changes no field of the object: seeds, epoch index, rotation
  counter, stopped flag, caches, dataset and VM handles are after the call what they
  were before it, whatever the outcome; a failing call also leaves the caller's result
  as it was.
\<close>

theorem calculate_reads_only:
  "(case calculate env tryrdlock_ok data seed result s of
      (ok, h, s') \<Rightarrow>
        m_seed s' = m_seed s \<and> m_index s' = m_index s \<and>
        m_setSeedCounter s' = m_setSeedCounter s \<and> m_stopped s' = m_stopped s \<and>
        m_cache s' = m_cache s \<and> m_dataset s' = m_dataset s \<and> m_vm s' = m_vm s \<and>
        (\<not> ok \<longrightarrow> h = result \<and> s' = s))"
  by (simp add: calculate_def randomx_calculate_hash_def log_call_def Let_def)

theorem calculate_reads_only_witness:
  "\<not> fst (calculate demo_engine True [1, 2, 3] 10 7 demo_s4) \<and>
   calculate demo_engine True [1, 2, 3] 10 7 demo_s4 = (False, 7, demo_s4)"
  using calculate_reads_only [where env = demo_engine and tryrdlock_ok = True and data = "[1, 2, 3]"
      and seed = 10 and result = 7 and s = demo_s4] demo_s4_evicted
  by (auto split: prod.splits)

section \<open>The previous seed goes to the slot that is not current\<close>

text \<open>
  C4. A call of \<open>set_old_seed\<close> that returns has polled the rotation counter until
  it was not zero, and has updated the object it found then: the seed is stored in the
  slot that is not current, that slot's cache is initialised from it and that slot's VM
  is bound to the cache; the epoch index, the rotation counter, the stopped flag, the
  dataset, the full-dataset VM and the current slot's seed, cache and VM are unchanged.
\<close>

theorem set_old_seed_touches_old_slot:
  assumes ret: "set_old_seed env world seed s = Some (Inr s')"
  shows "\<exists>n. m_setSeedCounter (world_state world 0 n s) \<noteq> 0 \<and>
    (\<forall>j<n. m_setSeedCounter (world_state world 0 j s) = 0) \<and>
    set_old_seed_update env seed (world_state world 0 n s) = Inr s' \<and>
    (well_formed (world_state world 0 n s) \<longrightarrow>
      (let s1 = world_state world 0 n s;
           cur = unat (m_index s1);
           old = unat (m_index s1 XOR 1)
       in old \<noteq> cur \<and>
          m_index s' = m_index s1 \<and> m_setSeedCounter s' = m_setSeedCounter s1 \<and>
          m_stopped s' = m_stopped s1 \<and> m_dataset s' = m_dataset s1 \<and>
          m_seed s' ! cur = m_seed s1 ! cur \<and> m_cache s' ! cur = m_cache s1 ! cur \<and>
          m_vm s' ! cur = m_vm s1 ! cur \<and>
          m_vm s' ! FULL_DATASET_VM = m_vm s1 ! FULL_DATASET_VM \<and>
          m_seed s' ! old = seed \<and> m_cache s' ! old = Some seed \<and>
          (\<exists>vm. m_vm s' ! old = Some vm \<and> vm_cache vm = Some old)))"
proof -
  from ret obtain s1 where
    w: "wait_for_set_seed world 0 s = Some s1" and u: "set_old_seed_update env seed s1 = Inr s'"
    by (auto simp: set_old_seed_def split: option.splits)
  from wait_for_set_seed_Some [OF w] obtain n where
    n: "s1 = world_state world 0 n s" "m_setSeedCounter s1 \<noteq> 0"
      "\<forall>j<n. m_setSeedCounter (world_state world 0 j s) = 0"
    by blast
  have frame: "let cur = unat (m_index s1); old = unat (m_index s1 XOR 1)
       in old \<noteq> cur \<and>
          m_index s' = m_index s1 \<and> m_setSeedCounter s' = m_setSeedCounter s1 \<and>
          m_stopped s' = m_stopped s1 \<and> m_dataset s' = m_dataset s1 \<and>
          m_seed s' ! cur = m_seed s1 ! cur \<and> m_cache s' ! cur = m_cache s1 ! cur \<and>
          m_vm s' ! cur = m_vm s1 ! cur \<and>
          m_vm s' ! FULL_DATASET_VM = m_vm s1 ! FULL_DATASET_VM \<and>
          m_seed s' ! old = seed \<and> m_cache s' ! old = Some seed \<and>
          (\<exists>vm. m_vm s' ! old = Some vm \<and> vm_cache vm = Some old)"
    if wf: "well_formed s1"
  proof -
    have len: "length (m_seed s1) = 2" "length (m_cache s1) = 2" "length (m_vm s1) = 3"
      using wf by (simp_all add: well_formed_def)
    from set_old_seed_update_Inr [OF wf u] index_cases [OF wf] len show ?thesis
      by (auto simp: Let_def FULL_DATASET_VM_def)
  qed
  from n u frame show ?thesis
    by (intro exI [of _ n]) (simp add: Let_def)
qed

theorem set_old_seed_touches_old_slot_witness:
  "set_old_seed demo_engine demo_world 10 demo_s0 = Some (Inr demo_w2) \<and>
   m_setSeedCounter demo_s0 = 0 \<and> m_setSeedCounter demo_w1 \<noteq> 0 \<and> well_formed demo_w1 \<and>
   set_old_seed_update demo_engine 10 demo_w1 = Inr demo_w2 \<and>
   m_index demo_w2 = m_index demo_w1 \<and>
   m_seed demo_w2 ! unat (m_index demo_w1) = m_seed demo_w1 ! unat (m_index demo_w1) \<and>
   m_seed demo_w2 ! unat (m_index demo_w1 XOR 1) = 10"
proof -
  from set_old_seed_touches_old_slot [OF demo_world_run] obtain n where
    n: "m_setSeedCounter (world_state demo_world 0 n demo_s0) \<noteq> 0"
      "\<forall>j<n. m_setSeedCounter (world_state demo_world 0 j demo_s0) = 0"
    and upd: "set_old_seed_update demo_engine 10 (world_state demo_world 0 n demo_s0) = Inr demo_w2"
    and frame: "well_formed (world_state demo_world 0 n demo_s0) \<longrightarrow>
      (let s1 = world_state demo_world 0 n demo_s0;
           cur = unat (m_index s1);
           old = unat (m_index s1 XOR 1)
       in old \<noteq> cur \<and>
          m_index demo_w2 = m_index s1 \<and> m_setSeedCounter demo_w2 = m_setSeedCounter s1 \<and>
          m_stopped demo_w2 = m_stopped s1 \<and> m_dataset demo_w2 = m_dataset s1 \<and>
          m_seed demo_w2 ! cur = m_seed s1 ! cur \<and> m_cache demo_w2 ! cur = m_cache s1 ! cur \<and>
          m_vm demo_w2 ! cur = m_vm s1 ! cur \<and>
          m_vm demo_w2 ! FULL_DATASET_VM = m_vm s1 ! FULL_DATASET_VM \<and>
          m_seed demo_w2 ! old = 10 \<and> m_cache demo_w2 ! old = Some 10 \<and>
          (\<exists>vm. m_vm demo_w2 ! old = Some vm \<and> vm_cache vm = Some old))"
    by blast
  have "\<not> 2 < n"
    using n(2) demo_world_states(3) by auto
  moreover have "n \<noteq> 0"
    using n(1) demo_world_states(1) by metis
  moreover have "n \<noteq> 1"
    using n(1) demo_world_states(2) by metis
  ultimately have "n = 2" by linarith
  with upd frame demo_world_states demo_world_run demo_s0_counter show ?thesis
    by (simp add: Let_def)
qed

text \<open>
  C5. The polling loop does not look at the Stopped Flag: on the fresh object, when
  no rotation ever happens and the object is stopped during the first sleep,
  \<open>set_old_seed\<close> never returns.
\<close>

theorem set_old_seed_ignores_stop:
  "m_stopped (world_state (\<lambda>k. stop) 0 1 demo_s0) \<and>
   set_old_seed demo_engine (\<lambda>k. stop) 10 demo_s0 = None"
proof -
  have "wait_for_set_seed (\<lambda>k. stop) 0 demo_s0 = None"
    by (rule wait_for_set_seed_never) (simp add: world_stop_counter demo_s0_counter)
  then show ?thesis by (simp add: set_old_seed_def stop_def)
qed

text \<open>
  C8. A stopped object refuses \<open>calculate\<close> and \<open>set_seed\<close> but not \<open>set_old_seed\<close>,
  which never loads the flag: on the stopped object of the first run, whose rotation
  counter is 3 and whose current slot is 1, it stores the seed 13 in slot 0, initialises
  that slot's cache from it and rebinds that slot's VM.
\<close>

theorem set_old_seed_runs_when_stopped:
  "m_stopped (stop demo_s4) \<and> m_setSeedCounter (stop demo_s4) = 3 \<and>
   m_index (stop demo_s4) = 1 \<and> m_seed (stop demo_s4) = [11, 12] \<and>
   calculate demo_engine True [1, 2, 3] 12 0 (stop demo_s4) = (False, 0, stop demo_s4) \<and>
   set_seed demo_engine False 13 (stop demo_s4) = Inr (stop demo_s4) \<and>
   set_old_seed demo_engine (\<lambda>k s. s) 13 (stop demo_s4) = Some (Inr demo_x) \<and>
   m_stopped demo_x \<and> m_seed demo_x = [13, 12] \<and> m_cache demo_x = [Some 13, Some 12] \<and>
   engine_calls demo_x = engine_calls demo_s4 @ [InitCache 0 13, SetCache 0 0]"
  by code_simp

section \<open>The ranges of the dataset rebuild\<close>

text \<open>
  C6. With 34078719 items on 256 hardware threads the products wrap around: the
  range of thread 126 starts at item 33546239 and has 4261679104 items, the range of
  thread 127 starts again at item 258047, and the rotation ends in a write outside the
  dataset.
\<close>

theorem dataset_partition_overflow:
  "num_threads 256 = 128 \<and>
   length (dataset_ranges 34078719 256) = 128 \<and>
   dataset_ranges 34078719 256 ! 125 = (33279999, 266240) \<and>
   dataset_ranges 34078719 256 ! 126 = (33546239, 4261679104) \<and>
   dataset_ranges 34078719 256 ! 127 = (258047, 266240) \<and>
   m_dataset epyc_s0 = Some (replicate 34078719 None) \<and>
   set_seed epyc_engine False 1 epyc_s0 = Inl DatasetOverrun"
proof -
  have s0: "epyc_s0 = zero_initialized
       \<lparr>m_dataset := Some (replicate 34078719 None),
        engine_calls := [AllocDataset {RANDOMX_FLAG_LARGE_PAGES},
           AllocCache 0 {RANDOMX_FLAG_LARGE_PAGES, RANDOMX_FLAG_OTHER 0},
           AllocCache 1 {RANDOMX_FLAG_LARGE_PAGES, RANDOMX_FLAG_OTHER 0}]\<rparr>"
    by (simp add: epyc_s0_def epyc_ctor)
  have wf: "well_formed epyc_s0" and run: "\<not> m_stopped epyc_s0"
    and new: "m_seed epyc_s0 ! unat (m_index epyc_s0) \<noteq> 1"
    and ds: "m_dataset epyc_s0 = Some (replicate 34078719 None)"
    and vm: "m_index epyc_s0 = 0"
    by (simp_all add: s0 zero_initialized_def well_formed_def)
  have env: "dataset_item_count epyc_engine = 34078719" "hardware_concurrency epyc_engine = 256"
    "create_vm_ok epyc_engine (get_flags epyc_engine) (Some 1) False"
    by (simp_all add: epyc_engine_def demo_engine_def)
  have "(33546239, 4261679104) \<in> set (dataset_ranges 34078719 256)"
    using nth_mem [of 126 "dataset_ranges 34078719 256"] epyc_ranges(1,3) by simp
  then have range: "(33546239, 4261679104)
      \<in> set (dataset_ranges (dataset_item_count epyc_engine) (hardware_concurrency epyc_engine))"
    by (simp add: env)
  have out: "length (replicate 34078719 (None :: hash option))
      < unat (33546239 :: u32) + unat (4261679104 :: u32)"
    by simp
  have "set_seed epyc_engine False 1 epyc_s0 \<noteq> Inl Panic"
    using set_seed_Panic_iff [OF wf, of epyc_engine False 1] env(3) vm by simp
  with set_seed_overrun [OF wf run new ds range out]
  have "set_seed epyc_engine False 1 epyc_s0 = Inl DatasetOverrun" by simp
  moreover have "num_threads 256 = 128"
    by (simp add: num_threads_def)
  ultimately show ?thesis
    using epyc_ranges ds by blast
qed

section \<open>Allocation failures\<close>

text \<open>
  C7, as amended. Every allocation is attempted with the large-pages flag first and,
  when that fails, a second time without the flags added for the first: the default
  flags for the dataset, the platform flags for a cache, a slot VM and the full-dataset
  VM. The constructor fails exactly when a cache cannot be allocated either way, and
  then panics; \<open>set_seed\<close> and \<open>set_old_seed\<close> panic exactly when the slot's VM does not
  exist and cannot be created either way, and the only other fault of \<open>set_seed\<close> is a
  range of the dataset rebuild that leaves the dataset. A dataset that cannot be
  allocated is not fatal and disables full-dataset mode for good. A full-dataset VM that
  cannot be created is not fatal either and the rotation still serves its seed from the
  slot VM, but the failure is not permanent: the next rotation to a new seed attempts
  the creation again, and creates the VM when one of the two attempts succeeds.
\<close>

theorem allocation_failures:
  "(RandomX_Hasher_ctor env lightMode = Inl f \<longleftrightarrow>
      f = Panic \<and>
      ((\<not> alloc_cache_ok env 0 (insert RANDOMX_FLAG_LARGE_PAGES (get_flags env)) \<and>
        \<not> alloc_cache_ok env 0 (get_flags env)) \<or>
       (\<not> alloc_cache_ok env 1 (insert RANDOMX_FLAG_LARGE_PAGES (get_flags env)) \<and>
        \<not> alloc_cache_ok env 1 (get_flags env)))) \<and>
   (RandomX_Hasher_ctor env lightMode = Inr s0 \<longrightarrow>
      engine_calls s0 =
        (if lightMode then []
         else attempts (alloc_dataset_ok env) AllocDataset
                {RANDOMX_FLAG_LARGE_PAGES} RANDOMX_FLAG_DEFAULT)
        @ attempts (alloc_cache_ok env 0) (AllocCache 0)
            (insert RANDOMX_FLAG_LARGE_PAGES (get_flags env)) (get_flags env)
        @ attempts (alloc_cache_ok env 1) (AllocCache 1)
            (insert RANDOMX_FLAG_LARGE_PAGES (get_flags env)) (get_flags env) \<and>
      (m_dataset s0 = None \<longleftrightarrow>
         lightMode \<or> (\<not> alloc_dataset_ok env {RANDOMX_FLAG_LARGE_PAGES} \<and>
                      \<not> alloc_dataset_ok env RANDOMX_FLAG_DEFAULT)) \<and>
      m_vm s0 = [None, None, None] \<and> well_formed s0) \<and>
   (update_slot_vm env i s = Inr s' \<longrightarrow>
      engine_calls s' = engine_calls s @
        (case m_vm s ! i of
           Some vm \<Rightarrow> [SetCache i i]
         | None \<Rightarrow> attempts (\<lambda>f. create_vm_ok env f (Some i) False)
                     (\<lambda>f. CreateVM i f (Some i) False)
                     (insert RANDOMX_FLAG_LARGE_PAGES (get_flags env)) (get_flags env))) \<and>
   engine_calls (create_full_vm env s) = engine_calls s @
     (case m_vm s ! FULL_DATASET_VM of
        Some vm \<Rightarrow> []
      | None \<Rightarrow> attempts (\<lambda>f. create_vm_ok env f None True)
                  (\<lambda>f. CreateVM FULL_DATASET_VM f None True)
                  (insert RANDOMX_FLAG_FULL_MEM (insert RANDOMX_FLAG_LARGE_PAGES (get_flags env)))
                  (get_flags env)) \<and>
   (well_formed s \<longrightarrow>
      (set_seed env late_stop seed s = Inl f \<longleftrightarrow>
         \<not> m_stopped s \<and> m_seed s ! unat (m_index s) \<noteq> seed \<and> \<not> late_stop \<and>
         (if m_vm s ! unat (m_index s XOR 1) = None \<and>
             \<not> create_vm_ok env (insert RANDOMX_FLAG_LARGE_PAGES (get_flags env))
                 (Some (unat (m_index s XOR 1))) False \<and>
             \<not> create_vm_ok env (get_flags env) (Some (unat (m_index s XOR 1))) False
          then f = Panic
          else f = DatasetOverrun \<and>
            (\<exists>items a n. m_dataset s = Some items \<and>
               (a, n) \<in> set (dataset_ranges (dataset_item_count env)
                              (hardware_concurrency env)) \<and>
               length items < unat a + unat n)))) \<and>
   (set_old_seed_update env seed s = Inl f \<longleftrightarrow>
      f = Panic \<and> m_vm s ! unat (m_index s XOR 1) = None \<and>
      \<not> create_vm_ok env (insert RANDOMX_FLAG_LARGE_PAGES (get_flags env))
          (Some (unat (m_index s XOR 1))) False \<and>
      \<not> create_vm_ok env (get_flags env) (Some (unat (m_index s XOR 1))) False) \<and>
   (well_formed s \<and> full_mode_disabled s \<and> later s t \<longrightarrow> full_mode_disabled t) \<and>
   (well_formed s \<and> \<not> m_stopped s \<and> m_seed s ! unat (m_index s) \<noteq> seed \<and>
    set_seed env False seed s = Inr u \<longrightarrow>
      fst (calculate env' tryrdlock_ok data seed result u) \<and>
      (m_vm s ! FULL_DATASET_VM = None \<and>
       \<not> create_vm_ok env (insert RANDOMX_FLAG_FULL_MEM
            (insert RANDOMX_FLAG_LARGE_PAGES (get_flags env))) None True \<and>
       \<not> create_vm_ok env (get_flags env) None True \<longrightarrow>
         m_vm u ! FULL_DATASET_VM = None) \<and>
      (m_dataset s \<noteq> None \<and>
       (create_vm_ok env (insert RANDOMX_FLAG_FULL_MEM
            (insert RANDOMX_FLAG_LARGE_PAGES (get_flags env))) None True \<or>
        create_vm_ok env (get_flags env) None True) \<longrightarrow>
         m_vm u ! FULL_DATASET_VM \<noteq> None))"
proof (intro conjI impI)
  show "RandomX_Hasher_ctor env lightMode = Inl f \<longleftrightarrow>
      f = Panic \<and>
      ((\<not> alloc_cache_ok env 0 (insert RANDOMX_FLAG_LARGE_PAGES (get_flags env)) \<and>
        \<not> alloc_cache_ok env 0 (get_flags env)) \<or>
       (\<not> alloc_cache_ok env 1 (insert RANDOMX_FLAG_LARGE_PAGES (get_flags env)) \<and>
        \<not> alloc_cache_ok env 1 (get_flags env)))"
    by (rule ctor_Inl)
next
  assume "RandomX_Hasher_ctor env lightMode = Inr s0"
  then show "engine_calls s0 =
        (if lightMode then []
         else attempts (alloc_dataset_ok env) AllocDataset
                {RANDOMX_FLAG_LARGE_PAGES} RANDOMX_FLAG_DEFAULT)
        @ attempts (alloc_cache_ok env 0) (AllocCache 0)
            (insert RANDOMX_FLAG_LARGE_PAGES (get_flags env)) (get_flags env)
        @ attempts (alloc_cache_ok env 1) (AllocCache 1)
            (insert RANDOMX_FLAG_LARGE_PAGES (get_flags env)) (get_flags env)"
    by (rule ctor_Inr)
next
  assume "RandomX_Hasher_ctor env lightMode = Inr s0"
  then show "m_dataset s0 = None \<longleftrightarrow>
         lightMode \<or> (\<not> alloc_dataset_ok env {RANDOMX_FLAG_LARGE_PAGES} \<and>
                      \<not> alloc_dataset_ok env RANDOMX_FLAG_DEFAULT)"
    by (rule ctor_Inr)
next
  assume "RandomX_Hasher_ctor env lightMode = Inr s0"
  then show "m_vm s0 = [None, None, None]"
    by (rule ctor_Inr)
next
  assume "RandomX_Hasher_ctor env lightMode = Inr s0"
  then show "well_formed s0"
    by (rule ctor_Inr)
next
  assume "update_slot_vm env i s = Inr s'"
  then show "engine_calls s' = engine_calls s @
        (case m_vm s ! i of
           Some vm \<Rightarrow> [SetCache i i]
         | None \<Rightarrow> attempts (\<lambda>f. create_vm_ok env f (Some i) False)
                     (\<lambda>f. CreateVM i f (Some i) False)
                     (insert RANDOMX_FLAG_LARGE_PAGES (get_flags env)) (get_flags env))"
    by (rule update_slot_vm_log)
next
  show "engine_calls (create_full_vm env s) = engine_calls s @
     (case m_vm s ! FULL_DATASET_VM of
        Some vm \<Rightarrow> []
      | None \<Rightarrow> attempts (\<lambda>f. create_vm_ok env f None True)
                  (\<lambda>f. CreateVM FULL_DATASET_VM f None True)
                  (insert RANDOMX_FLAG_FULL_MEM (insert RANDOMX_FLAG_LARGE_PAGES (get_flags env)))
                  (get_flags env))"
    by (rule create_full_vm_log)
next
  assume "well_formed s"
  then show "set_seed env late_stop seed s = Inl f \<longleftrightarrow>
         \<not> m_stopped s \<and> m_seed s ! unat (m_index s) \<noteq> seed \<and> \<not> late_stop \<and>
         (if m_vm s ! unat (m_index s XOR 1) = None \<and>
             \<not> create_vm_ok env (insert RANDOMX_FLAG_LARGE_PAGES (get_flags env))
                 (Some (unat (m_index s XOR 1))) False \<and>
             \<not> create_vm_ok env (get_flags env) (Some (unat (m_index s XOR 1))) False
          then f = Panic
          else f = DatasetOverrun \<and>
            (\<exists>items a n. m_dataset s = Some items \<and>
               (a, n) \<in> set (dataset_ranges (dataset_item_count env)
                              (hardware_concurrency env)) \<and>
               length items < unat a + unat n))"
    by (rule set_seed_Inl_iff)
next
  show "set_old_seed_update env seed s = Inl f \<longleftrightarrow>
      f = Panic \<and> m_vm s ! unat (m_index s XOR 1) = None \<and>
      \<not> create_vm_ok env (insert RANDOMX_FLAG_LARGE_PAGES (get_flags env))
          (Some (unat (m_index s XOR 1))) False \<and>
      \<not> create_vm_ok env (get_flags env) (Some (unat (m_index s XOR 1))) False"
    by (rule set_old_seed_update_Inl)
next
  assume "well_formed s \<and> full_mode_disabled s \<and> later s t"
  then show "full_mode_disabled t"
    using later_disabled [of s t] by simp
next
  assume a: "well_formed s \<and> \<not> m_stopped s \<and> m_seed s ! unat (m_index s) \<noteq> seed \<and>
    set_seed env False seed s = Inr u"
  then show "fst (calculate env' tryrdlock_ok data seed result u)"
    using set_seed_serves_new_seed [of s seed env u] by simp
next
  assume a: "well_formed s \<and> \<not> m_stopped s \<and> m_seed s ! unat (m_index s) \<noteq> seed \<and>
    set_seed env False seed s = Inr u"
  assume "m_vm s ! FULL_DATASET_VM = None \<and>
       \<not> create_vm_ok env (insert RANDOMX_FLAG_FULL_MEM
            (insert RANDOMX_FLAG_LARGE_PAGES (get_flags env))) None True \<and>
       \<not> create_vm_ok env (get_flags env) None True"
  with a show "m_vm u ! FULL_DATASET_VM = None"
    using set_seed_rotates_dataset(2) [of s seed env u] by simp
next
  assume a: "well_formed s \<and> \<not> m_stopped s \<and> m_seed s ! unat (m_index s) \<noteq> seed \<and>
    set_seed env False seed s = Inr u"
  assume "m_dataset s \<noteq> None \<and>
       (create_vm_ok env (insert RANDOMX_FLAG_FULL_MEM
            (insert RANDOMX_FLAG_LARGE_PAGES (get_flags env))) None True \<or>
        create_vm_ok env (get_flags env) None True)"
  with a show "m_vm u ! FULL_DATASET_VM \<noteq> None"
    using set_seed_rotates_dataset(3) [of s seed env u] by simp
qed

theorem allocation_failures_witness:
  "RandomX_Hasher_ctor demo_engine True = Inr demo_l0 \<and> m_dataset demo_l0 = None \<and>
   well_formed demo_l0 \<and> full_mode_disabled demo_l0 \<and> later demo_l0 demo_l1 \<and>
   full_mode_disabled demo_l1 \<and>
   well_formed demo_s0 \<and> set_seed novm_engine False 10 demo_s0 = Inl Panic \<and>
   set_seed flaky_engine False 10 demo_s0 = Inr demo_f1 \<and>
   m_vm demo_f1 ! FULL_DATASET_VM = None \<and>
   fst (calculate demo_engine True [1, 2, 3] 10 0 demo_f1) \<and>
   set_seed demo_engine False 11 demo_f1 = Inr demo_f2 \<and>
   m_vm demo_f2 ! FULL_DATASET_VM \<noteq> None"
proof -
  have lat: "later demo_l0 demo_l1"
    by (rule later_set_seed [OF later_refl flaky_run(4)])
  note ctor = allocation_failures [where env = demo_engine and lightMode = True and s0 = demo_l0,
      THEN conjunct2, THEN conjunct1, THEN mp, OF flaky_run(3), THEN conjunct2, THEN conjunct1]
  have light: "m_dataset demo_l0 = None"
    using ctor by blast
  have dis: "well_formed demo_l0 \<and> full_mode_disabled demo_l0 \<and> later demo_l0 demo_l1"
    by (intro conjI flaky_facts(8,9) lat)
  note perm = allocation_failures [where s = demo_l0 and t = demo_l1,
      THEN conjunct2, THEN conjunct2, THEN conjunct2, THEN conjunct2, THEN conjunct2,
      THEN conjunct2, THEN conjunct1, THEN mp, OF dis]
  note fault = allocation_failures [where env = novm_engine and s = demo_s0 and seed = 10
      and late_stop = False and f = Panic,
      THEN conjunct2, THEN conjunct2, THEN conjunct2, THEN conjunct2, THEN conjunct1,
      THEN mp, OF demo_s0_facts(1)]
  have panic: "set_seed novm_engine False 10 demo_s0 = Inl Panic"
    by (rule fault [THEN iffD2]) (simp add: demo_s0_facts flaky_facts(5) novm_facts)
  have rot1: "well_formed demo_s0 \<and> \<not> m_stopped demo_s0 \<and>
      m_seed demo_s0 ! unat (m_index demo_s0) \<noteq> 10 \<and>
      set_seed flaky_engine False 10 demo_s0 = Inr demo_f1"
    by (intro conjI demo_s0_facts flaky_facts(5) flaky_run(1))
  note fail = allocation_failures [where env = flaky_engine and s = demo_s0 and seed = 10
      and u = demo_f1 and env' = demo_engine and tryrdlock_ok = True and data = "[1, 2, 3]"
      and result = 0,
      THEN conjunct2, THEN conjunct2, THEN conjunct2, THEN conjunct2, THEN conjunct2,
      THEN conjunct2, THEN conjunct2, THEN mp, OF rot1]
  have broken: "m_vm demo_s0 ! FULL_DATASET_VM = None \<and>
      \<not> create_vm_ok flaky_engine (insert RANDOMX_FLAG_FULL_MEM
           (insert RANDOMX_FLAG_LARGE_PAGES (get_flags flaky_engine))) None True \<and>
      \<not> create_vm_ok flaky_engine (get_flags flaky_engine) None True"
    by (intro conjI flaky_facts(6) flaky_engine_fails)
  have rot2: "well_formed demo_f1 \<and> \<not> m_stopped demo_f1 \<and>
      m_seed demo_f1 ! unat (m_index demo_f1) \<noteq> 11 \<and>
      set_seed demo_engine False 11 demo_f1 = Inr demo_f2"
    by (intro conjI flaky_facts(1,2,3) flaky_run(2))
  note retry = allocation_failures [where env = demo_engine and s = demo_f1 and seed = 11
      and u = demo_f2,
      THEN conjunct2, THEN conjunct2, THEN conjunct2, THEN conjunct2, THEN conjunct2,
      THEN conjunct2, THEN conjunct2, THEN mp, OF rot2]
  have works: "m_dataset demo_f1 \<noteq> None \<and>
      (create_vm_ok demo_engine (insert RANDOMX_FLAG_FULL_MEM
           (insert RANDOMX_FLAG_LARGE_PAGES (get_flags demo_engine))) None True \<or>
       create_vm_ok demo_engine (get_flags demo_engine) None True)"
    by (intro conjI disjI1 flaky_facts(4,7))
  show ?thesis
    by (intro conjI flaky_run(3) light flaky_facts(8,9) lat perm demo_s0_facts(1) panic
        flaky_run(1)
        fail [THEN conjunct2, THEN conjunct1, THEN mp, OF broken]
        fail [THEN conjunct1] flaky_run(2)
        retry [THEN conjunct2, THEN conjunct2, THEN mp, OF works])
qed

text \<open>
  C7, as stated, fails: a rotation on an engine that cannot create the full-dataset VM
  leaves it absent, the next rotation creates it, and \<open>calculate\<close> then uses it.
\<close>

theorem full_vm_failure_not_permanent:
  "set_seed flaky_engine False 10 demo_s0 = Inr demo_f1 \<and>
   \<not> create_vm_ok flaky_engine (insert RANDOMX_FLAG_FULL_MEM
       (insert RANDOMX_FLAG_LARGE_PAGES (get_flags flaky_engine))) None True \<and>
   \<not> create_vm_ok flaky_engine (get_flags flaky_engine) None True \<and>
   m_vm demo_f1 ! FULL_DATASET_VM = None \<and>
   set_seed demo_engine False 11 demo_f1 = Inr demo_f2 \<and>
   m_vm demo_f2 ! FULL_DATASET_VM \<noteq> None \<and>
   snd (snd (calculate demo_engine True [1, 2, 3] 11 0 demo_f2)) =
     log_call (CalculateHash FULL_DATASET_VM [1, 2, 3]) demo_f2"
  by code_simp

end
